theory Spec2Isabelle
  imports Complex_Main "HOL-Library.Word"
begin

section \<open>JavaScript strings\<close>

text \<open>
  A JavaScript string is a sequence of 16-bit code units. The helper \<open>u16\<close> writes an
  ASCII literal as such a sequence.
\<close>

type_synonym jsstring = "16 word list"

definition u16 :: "string \<Rightarrow> jsstring" where
  "u16 s = map (\<lambda>c. of_nat (of_char c)) s"

abbreviation LF :: "16 word" where "LF \<equiv> 0x0A"
abbreviation SP :: "16 word" where "SP \<equiv> 0x20"
abbreviation DOLLAR :: "16 word" where "DOLLAR \<equiv> 0x24"

text \<open>
  The class \<open>\s\<close> of a regular expression, which is also the set that \<open>trim()\<close> removes:
  the WhiteSpace and LineTerminator code points of ECMAScript.
\<close>

definition is_space :: "16 word \<Rightarrow> bool" where
  "is_space c =
     (c = 0x09 \<or> c = 0x0A \<or> c = 0x0B \<or> c = 0x0C \<or> c = 0x0D \<or> c = 0x20 \<or> c = 0xA0
      \<or> c = 0x1680 \<or> (0x2000 \<le> c \<and> c \<le> 0x200A) \<or> c = 0x2028 \<or> c = 0x2029
      \<or> c = 0x202F \<or> c = 0x205F \<or> c = 0x3000 \<or> c = 0xFEFF)"

definition trim :: "jsstring \<Rightarrow> jsstring" where
  "trim s = rev (dropWhile is_space (rev (dropWhile is_space s)))"

section \<open>String.prototype.replace with a global regular expression\<close>

text \<open>
  A replacement given as a string is expanded at every match (GetSubstitution): \<open>$$\<close> is a
  dollar sign, \<open>$&\<close> the matched text, \<open>$`\<close> the text in front of the match and \<open>$'\<close> the text
  behind it. None of the patterns of \<open>sanitizeMessage\<close> has a capture group, so \<open>$1\<close>,
  \<open>$<x>\<close> and a trailing \<open>$\<close> stay as they are.
\<close>

fun getSubstitution :: "jsstring \<Rightarrow> jsstring \<Rightarrow> jsstring \<Rightarrow> jsstring \<Rightarrow> jsstring" where
  "getSubstitution matched left right [] = []"
| "getSubstitution matched left right [c] = [c]"
| "getSubstitution matched left right (c # d # r) =
     (if c = DOLLAR \<and> d = DOLLAR then DOLLAR # getSubstitution matched left right r
      else if c = DOLLAR \<and> d = 0x26 then matched @ getSubstitution matched left right r
      else if c = DOLLAR \<and> d = 0x60 then left @ getSubstitution matched left right r
      else if c = DOLLAR \<and> d = 0x27 then right @ getSubstitution matched left right r
      else c # getSubstitution matched left right (d # r))"

text \<open>
  A pattern is given by its matcher: applied to the text that starts at the current
  position, it returns the length of the match the backtracking engine finds there, if
  any. (No pattern of the source looks behind the current position.) \<open>replace_g\<close> is the
  scan of a \<open>/g\<close> replacement: leftmost match, replace, continue behind the match; an empty
  match is replaced and the scan steps over one code unit.
\<close>

type_synonym matcher = "jsstring \<Rightarrow> nat option"
type_synonym substitution = "jsstring \<Rightarrow> jsstring \<Rightarrow> jsstring \<Rightarrow> jsstring"

fun replace_g :: "matcher \<Rightarrow> substitution \<Rightarrow> jsstring \<Rightarrow> jsstring \<Rightarrow> jsstring" where
  "replace_g m sub left [] = (case m [] of None \<Rightarrow> [] | Some _ \<Rightarrow> sub [] left [])"
| "replace_g m sub left (c # r) =
     (case m (c # r) of
        None \<Rightarrow> c # replace_g m sub (left @ [c]) r
      | Some 0 \<Rightarrow> sub [] left (c # r) @ c # replace_g m sub (left @ [c]) r
      | Some (Suc k) \<Rightarrow>
          sub (c # take k r) left (drop k r)
            @ replace_g m sub (left @ c # take k r) (drop k r))"

definition by_string :: "jsstring \<Rightarrow> substitution" where
  "by_string replacement = (\<lambda>matched left right. getSubstitution matched left right replacement)"

section \<open>The patterns of sanitizeMessage\<close>

definition starts_with :: "jsstring \<Rightarrow> jsstring \<Rightarrow> bool" where
  "starts_with p s = (take (length p) s = p)"

text \<open>\<^verbatim>\<open>/\[(?:Name|name|Your Name\/Brand|your name|brand|Brand)\]/g\<close>: the alternatives
  are tried in order, each followed by the closing bracket.\<close>

definition bracket_names :: "jsstring list" where
  "bracket_names = [u16 ''Name'', u16 ''name'', u16 ''Your Name/Brand'', u16 ''your name'',
                    u16 ''brand'', u16 ''Brand'']"

definition match_group :: "16 word \<Rightarrow> jsstring list \<Rightarrow> 16 word \<Rightarrow> matcher" where
  "match_group opening alternatives closing s =
     (case s of
        [] \<Rightarrow> None
      | c # r \<Rightarrow>
          if c = opening
          then map_option (\<lambda>a. length a + 2) (find (\<lambda>a. starts_with (a @ [closing]) r) alternatives)
          else None)"

definition match_bracket :: matcher where
  "match_bracket = match_group 0x5B bracket_names 0x5D"

text \<open>\<^verbatim>\<open>/\{(?:name|Name)\}/g\<close>\<close>

definition brace_names :: "jsstring list" where
  "brace_names = [u16 ''name'', u16 ''Name'']"

definition match_brace :: matcher where
  "match_brace = match_group 0x7B brace_names 0x7D"

text \<open>\<^verbatim>\<open>/<\s*name\s*>/gi\<close>: with the \<open>i\<close> flag (and no \<open>u\<close> flag) a letter of the pattern
  matches its two ASCII cases only. Each \<open>\s*\<close> is greedy and is followed by a code unit
  that is not white space, so only the whole run can lead to a match.\<close>

definition ci_name :: "jsstring \<Rightarrow> bool" where
  "ci_name t =
     (case t of
        [n, a, m, e] \<Rightarrow>
          (n = 0x6E \<or> n = 0x4E) \<and> (a = 0x61 \<or> a = 0x41) \<and> (m = 0x6D \<or> m = 0x4D)
          \<and> (e = 0x65 \<or> e = 0x45)
      | _ \<Rightarrow> False)"

definition match_angle :: matcher where
  "match_angle s =
     (case s of
        [] \<Rightarrow> None
      | c # r \<Rightarrow>
          if c \<noteq> 0x3C then None
          else
            let r1 = dropWhile is_space r in
            if \<not> ci_name (take 4 r1) then None
            else
              let r2 = dropWhile is_space (drop 4 r1) in
              (case r2 of
                 [] \<Rightarrow> None
               | d # _ \<Rightarrow>
                   if d = 0x3E
                   then Some (1 + length (takeWhile is_space r) + 4
                                + length (takeWhile is_space (drop 4 r1)) + 1)
                   else None))"

text \<open>A character class: \<^verbatim>\<open>/[\*`_>#]/g\<close> and \<^verbatim>\<open>/[\[\]<>]/g\<close>.\<close>

definition match_class :: "(16 word \<Rightarrow> bool) \<Rightarrow> matcher" where
  "match_class P s = (case s of [] \<Rightarrow> None | c # _ \<Rightarrow> if P c then Some 1 else None)"

definition md_char :: "16 word \<Rightarrow> bool" where
  "md_char c = (c = 0x2A \<or> c = 0x60 \<or> c = 0x5F \<or> c = 0x3E \<or> c = 0x23)"

definition bracket_char :: "16 word \<Rightarrow> bool" where
  "bracket_char c = (c = 0x5B \<or> c = 0x5D \<or> c = 0x3C \<or> c = 0x3E)"

text \<open>\<^verbatim>\<open>/\s+\n/g\<close>: \<open>\s+\<close> first takes the whole run of white space (a line feed is white
  space too), then gives code units back one at a time until a line feed follows it.
  \<open>k\<close> is the number of code units \<open>\s+\<close> keeps.\<close>

definition match_ws_nl :: matcher where
  "match_ws_nl s =
     (let run = length (takeWhile is_space s)
      in map_option Suc (find (\<lambda>k. k < length s \<and> s ! k = LF) (rev [1..<Suc run])))"

text \<open>\<^verbatim>\<open>/\n{3,}/g\<close> and \<^verbatim>\<open>/\s{2,}/g\<close>: greedy runs.\<close>

definition match_nl3 :: matcher where
  "match_nl3 s = (let k = length (takeWhile (\<lambda>c. c = LF) s) in if 3 \<le> k then Some k else None)"

definition match_ws2 :: matcher where
  "match_ws2 s = (let k = length (takeWhile is_space s) in if 2 \<le> k then Some k else None)"

section \<open>sanitizeMessage\<close>

definition fallback_of :: "jsstring \<Rightarrow> jsstring \<Rightarrow> jsstring" where
  "fallback_of name username = (if name \<noteq> [] then name else username)"

definition replace_bracket :: "jsstring \<Rightarrow> jsstring \<Rightarrow> jsstring" where
  "replace_bracket fallback s = replace_g match_bracket (by_string fallback) [] s"

definition replace_brace :: "jsstring \<Rightarrow> jsstring \<Rightarrow> jsstring" where
  "replace_brace fallback s = replace_g match_brace (by_string fallback) [] s"

definition replace_angle :: "jsstring \<Rightarrow> jsstring \<Rightarrow> jsstring" where
  "replace_angle fallback s = replace_g match_angle (by_string fallback) [] s"

definition strip_markdown :: "jsstring \<Rightarrow> jsstring" where
  "strip_markdown s = replace_g (match_class md_char) (by_string []) [] s"

definition strip_brackets :: "jsstring \<Rightarrow> jsstring" where
  "strip_brackets s = replace_g (match_class bracket_char) (by_string []) [] s"

definition collapse_ws_nl :: "jsstring \<Rightarrow> jsstring" where
  "collapse_ws_nl s = replace_g match_ws_nl (by_string [LF]) [] s"

definition collapse_nl3 :: "jsstring \<Rightarrow> jsstring" where
  "collapse_nl3 s = replace_g match_nl3 (by_string [LF, LF]) [] s"

definition collapse_ws2 :: "jsstring \<Rightarrow> jsstring" where
  "collapse_ws2 s = replace_g match_ws2 (by_string [SP]) [] s"

definition sanitizeMessage :: "jsstring \<Rightarrow> jsstring \<Rightarrow> jsstring \<Rightarrow> jsstring" where
  "sanitizeMessage msg name username =
     (let out = trim msg;
          fallback = fallback_of name username;
          out = replace_angle fallback (replace_brace fallback (replace_bracket fallback out));
          out = strip_markdown out;
          out = strip_brackets out;
          out = collapse_ws2 (collapse_nl3 (collapse_ws_nl out));
          out = trim out
      in out)"

text \<open>The characters that the two stripping passes remove: \<open>* ` _ > # [ ] <\<close>.\<close>

definition markup_chars :: "16 word set" where
  "markup_chars = {0x2A, 0x60, 0x5F, 0x3E, 0x23, 0x5B, 0x5D, 0x3C}"

text \<open>\<open>has_match m s\<close>: the pattern matches somewhere in \<open>s\<close>.\<close>

fun has_match :: "matcher \<Rightarrow> jsstring \<Rightarrow> bool" where
  "has_match m [] = (m [] \<noteq> None)"
| "has_match m (c # r) = (m (c # r) \<noteq> None \<or> has_match m r)"

text \<open>Two neighbouring code units are \<open>apart\<close> when they are not both white space.\<close>

definition apart :: "16 word \<Rightarrow> 16 word \<Rightarrow> bool" where
  "apart a b = (\<not> (is_space a \<and> is_space b))"

text \<open>
  A placeholder is a text that one of the three substitution patterns matches as a whole.
\<close>

definition is_placeholder :: "jsstring \<Rightarrow> bool" where
  "is_placeholder tok =
     (match_bracket tok = Some (length tok) \<or> match_brace tok = Some (length tok)
      \<or> match_angle tok = Some (length tok))"

text \<open>
  \<open>infix_of x a\<close>: the text \<open>x\<close> occurs in \<open>a\<close>. \<open>fold_case\<close> maps the upper-case letters
  of \<open>NAME\<close> to lower case, which is how \<^verbatim>\<open>/name/i\<close> compares.
\<close>

definition infix_of :: "jsstring \<Rightarrow> jsstring \<Rightarrow> bool" where
  "infix_of x a = list_ex (\<lambda>i. starts_with x (drop i a)) [0..<Suc (length a)]"

definition fold_case :: "16 word \<Rightarrow> 16 word" where
  "fold_case c =
     (if c = 0x4E then 0x6E else if c = 0x41 then 0x61 else if c = 0x4D then 0x6D
      else if c = 0x45 then 0x65 else c)"

text \<open>
  A name that the substitution passes insert and then leave alone, wherever it stands: it
  is not empty, has no white space at either end, contains none of \<open>$ [ ] { } < >\<close>, and
  is no piece of the text between the brackets of a placeholder (such as \<open>name\<close>, \<open>am\<close> or
  \<open>Brand\<close>), so that it cannot complete a placeholder together with the text around it.
\<close>

definition plain_name :: "jsstring \<Rightarrow> bool" where
  "plain_name fb =
     (fb \<noteq> [] \<and> \<not> is_space (hd fb) \<and> \<not> is_space (last fb)
      \<and> list_all (\<lambda>c. c \<notin> set [0x24, 0x5B, 0x5D, 0x7B, 0x7D, 0x3C, 0x3E]) fb
      \<and> list_all (\<lambda>a. \<not> infix_of fb a) (bracket_names @ brace_names)
      \<and> \<not> infix_of (map fold_case fb) (u16 ''name''))"

text \<open>
  A tidy text: none of the characters that are stripped, no two white-space characters in
  a row, no white space at either end, and no brace placeholder.
\<close>

definition tidy :: "jsstring \<Rightarrow> bool" where
  "tidy s =
     (list_all (\<lambda>c. c \<notin> markup_chars) s \<and> successively apart s \<and> trim s = s
      \<and> \<not> has_match match_brace s)"

section \<open>The job state\<close>

text \<open>
  The interface \<open>JobState\<close> and the module variable \<open>state\<close> with its initial value. The
  field \<open>total\<close> is called \<open>total_count\<close> here. Counters are natural numbers, times are
  milliseconds since the epoch.
\<close>

record JobState =
  running :: bool
  igUser :: "jsstring option"
  total_count :: nat
  index :: nat
  sent :: nat
  failed :: nat
  currentUsername :: "jsstring option"
  currentProxy :: "jsstring option"
  userAgent :: "jsstring option"
  nextSendAt :: "int option"
  lastError :: "jsstring option"
  lastStep :: "jsstring option"

definition initial_state :: JobState where
  "initial_state =
     \<lparr>running = False, igUser = None, total_count = 0, index = 0, sent = 0, failed = 0,
      currentUsername = None, currentProxy = None, userAgent = None, nextSendAt = None,
      lastError = None, lastStep = None\<rparr>"

section \<open>What the server does not control\<close>

text \<open>
  The Instagram client, the OpenRouter endpoint, the URL parser, the environment, the
  clock and \<open>Math.random\<close> are parameters of the model. A call that throws is given by the
  message of the error it throws (\<open>Inl\<close>, or \<open>Some\<close> where nothing is returned). The calls
  made for the recipient at index \<open>i\<close> may depend on \<open>i\<close>.
\<close>

record url =
  protocol :: jsstring
  hostname :: jsstring
  port :: jsstring

record ig_user =
  pk :: jsstring
  full_name :: "jsstring option"

record http_response =
  ok :: bool
  status :: nat
  content :: "jsstring + jsstring option"

record world =
  api_key :: "jsstring option"
  login :: "jsstring \<Rightarrow> jsstring \<Rightarrow> jsstring option"
  parse_url :: "jsstring \<Rightarrow> url option"
  searchExact :: "nat \<Rightarrow> jsstring \<Rightarrow> jsstring + ig_user"
  fetch_completion :: "nat \<Rightarrow> jsstring \<Rightarrow> jsstring \<Rightarrow> jsstring \<Rightarrow> jsstring + http_response"
  broadcastText :: "nat \<Rightarrow> jsstring \<Rightarrow> jsstring \<Rightarrow> jsstring option"
  round_trip :: "nat \<Rightarrow> nat"
  math_random :: "nat \<Rightarrow> nat \<Rightarrow> real"
  started_at :: int

text \<open>
  \<open>content\<close> is what \<open>res.json()\<close> and the path \<open>choices[0].message.content\<close> give: \<open>Inl\<close>
  when parsing throws, \<open>Inr None\<close> when the path is undefined. \<open>fetch_completion\<close> takes the
  API key, the system prompt and the user message. \<open>round_trip w i\<close> is the time the calls
  for recipient \<open>i\<close> take; \<open>math_random w i j\<close> is the value of the \<open>j\<close>-th call of
  \<open>Math.random()\<close> in the pause after recipient \<open>i\<close>; \<open>started_at\<close> is the clock when the
  loop starts.
\<close>

section \<open>Pacing and proxies\<close>

definition jitterSeconds :: "real \<Rightarrow> int" where
  "jitterSeconds r = \<lfloor>r * (420 - 180 + 1)\<rfloor> + 180"

definition captchaExtraDelaySeconds :: "real \<Rightarrow> int" where
  "captchaExtraDelaySeconds r = \<lfloor>r * (120 - 60 + 1)\<rfloor> + 60"

definition isValidProxy :: "world \<Rightarrow> jsstring \<Rightarrow> bool" where
  "isValidProxy w p =
     (case parse_url w p of
        None \<Rightarrow> False
      | Some u \<Rightarrow>
          (protocol u = u16 ''http:'' \<or> protocol u = u16 ''https:'') \<and> hostname u \<noteq> []
          \<and> port u \<noteq> [])"

section \<open>openrouterGenerate\<close>

fun decimal :: "nat \<Rightarrow> jsstring" where
  "decimal n = (if n < 10 then [of_nat (48 + n)] else decimal (n div 10) @ [of_nat (48 + n mod 10)])"

declare decimal.simps [simp del]

definition user_message :: "jsstring \<Rightarrow> jsstring \<Rightarrow> jsstring" where
  "user_message username name =
     u16 ''Write a short, personalized DM for Instagram user @'' @ username @ u16 '' named ''
       @ (if name \<noteq> [] then name else u16 ''there'')
       @ u16 ''. Keep it human, specific, and useful. No asterisks, no brackets, no markdown.''"

definition openrouterGenerate ::
  "world \<Rightarrow> nat \<Rightarrow> jsstring \<Rightarrow> jsstring \<Rightarrow> jsstring \<Rightarrow> jsstring \<Rightarrow> jsstring + jsstring" where
  "openrouterGenerate w i apiKey systemPrompt username name =
     (case fetch_completion w i apiKey systemPrompt (user_message username name) of
        Inl e \<Rightarrow> Inl e
      | Inr res \<Rightarrow>
          if \<not> ok res then Inl (u16 ''OpenRouter failed with status '' @ decimal (status res))
          else
            (case content res of
               Inl e \<Rightarrow> Inl e
             | Inr None \<Rightarrow> Inl (u16 ''OpenRouter returned no content'')
             | Inr (Some c) \<Rightarrow>
                 if c = [] then Inl (u16 ''OpenRouter returned no content'') else Inr c))"

section \<open>The background loop\<close>

text \<open>
  The variables of the loop: the module variable \<open>state\<close> (\<open>job\<close>), the cursor
  \<open>proxyIndex\<close>, the values assigned to \<open>ig.state.proxyUrl\<close> so far (\<open>proxyUrls\<close>), the clock
  (\<open>now\<close>), and \<open>seen\<close>: the values that \<open>state\<close> held, in order, whenever the loop was
  suspended in an \<open>await\<close>, which is when another request handler can read it, and the
  value it is left with when the task ends.
\<close>

record loop_vars =
  job :: JobState
  proxyIndex :: nat
  proxyUrls :: "jsstring option list"
  now :: int
  seen :: "JobState list"

definition await :: "loop_vars \<Rightarrow> loop_vars" where
  "await l = l\<lparr>seen := seen l @ [job l]\<rparr>"

definition set_step :: "string \<Rightarrow> loop_vars \<Rightarrow> loop_vars" where
  "set_step name l = l\<lparr>job := (job l)\<lparr>lastStep := Some (u16 name)\<rparr>\<rparr>"

text \<open>Lines 173 to 181: round-robin proxy rotation per send.\<close>

definition rotate_proxy :: "jsstring list \<Rightarrow> loop_vars \<Rightarrow> loop_vars" where
  "rotate_proxy proxyList l =
     (if length proxyList > 0
      then
        let current = proxyList ! (proxyIndex l mod length proxyList)
        in l\<lparr>job := (job l)\<lparr>currentProxy := Some current\<rparr>,
             proxyUrls := proxyUrls l @ [Some current],
             proxyIndex := proxyIndex l + 1\<rparr>
      else l\<lparr>job := (job l)\<lparr>currentProxy := None\<rparr>, proxyUrls := proxyUrls l @ [None]\<rparr>)"

text \<open>The \<open>catch\<close> block and the two last statements of the \<open>try\<close> block.\<close>

definition on_error :: "jsstring \<Rightarrow> loop_vars \<Rightarrow> loop_vars" where
  "on_error message l = l\<lparr>job := (job l)\<lparr>failed := failed (job l) + 1, lastError := Some message\<rparr>\<rparr>"

definition on_sent :: "loop_vars \<Rightarrow> loop_vars" where
  "on_sent l = l\<lparr>job := (job l)\<lparr>sent := sent (job l) + 1, lastError := None\<rparr>\<rparr>"

text \<open>Lines 171 to 200: the \<open>try\<close>/\<open>catch\<close> statement for the recipient at index \<open>i\<close>.\<close>

definition dispatch ::
  "world \<Rightarrow> jsstring \<Rightarrow> jsstring \<Rightarrow> jsstring list \<Rightarrow> nat \<Rightarrow> jsstring \<Rightarrow> loop_vars \<Rightarrow> loop_vars" where
  "dispatch w apiKey systemPrompt proxyList i uname l =
     (let l1 = await (set_step ''resolve_user_pk'' (rotate_proxy proxyList l))
      in (case searchExact w i uname of
            Inl e \<Rightarrow> on_error e l1
          | Inr user \<Rightarrow>
              (let l2 = await (set_step ''generate_message'' l1);
                   name = (case full_name user of None \<Rightarrow> [] | Some n \<Rightarrow> n)
               in (case openrouterGenerate w i apiKey systemPrompt uname name of
                     Inl e \<Rightarrow> on_error e l2
                   | Inr messageRaw \<Rightarrow>
                       (let message = sanitizeMessage messageRaw name uname;
                            l3 = await (set_step ''send_dm'' l2)
                        in (case broadcastText w i (pk user) message of
                              Some e \<Rightarrow> on_error e l3
                            | None \<Rightarrow> on_sent l3))))))"

text \<open>The message of the error that the \<open>try\<close> block throws for recipient \<open>i\<close>, if any.\<close>

definition thrown :: "world \<Rightarrow> jsstring \<Rightarrow> jsstring \<Rightarrow> nat \<Rightarrow> jsstring \<Rightarrow> jsstring option" where
  "thrown w apiKey systemPrompt i uname =
     (case searchExact w i uname of
        Inl e \<Rightarrow> Some e
      | Inr user \<Rightarrow>
          (let name = (case full_name user of None \<Rightarrow> [] | Some n \<Rightarrow> n)
           in (case openrouterGenerate w i apiKey systemPrompt uname name of
                 Inl e \<Rightarrow> Some e
               | Inr messageRaw \<Rightarrow>
                   broadcastText w i (pk user) (sanitizeMessage messageRaw name uname))))"

text \<open>
  Lines 210 to 213: the countdown. Every turn is one \<open>await delay(1000)\<close>, after which the
  clock has advanced by the 1000 ms of the timer.
\<close>

function wait_loop :: "int \<Rightarrow> loop_vars \<Rightarrow> loop_vars" where
  "wait_loop target l =
     (if now l < target \<and> running (job l)
      then wait_loop target ((await l)\<lparr>now := now l + 1000\<rparr>)
      else l)"
  by pat_completeness auto
termination
  by (relation "measure (\<lambda>(target, l). nat (target - now l))") (auto simp: await_def)

declare wait_loop.simps [simp del]

text \<open>Lines 167 to 214: the body of the \<open>for\<close> loop after the check of \<open>state.running\<close>.\<close>

definition waitSec :: "world \<Rightarrow> nat \<Rightarrow> int" where
  "waitSec w i =
     3600 + jitterSeconds (math_random w i 0)
       + (if math_random w i 1 < 0.2 then captchaExtraDelaySeconds (math_random w i 2) else 0)"

definition iteration ::
  "world \<Rightarrow> jsstring \<Rightarrow> jsstring \<Rightarrow> jsstring list \<Rightarrow> jsstring list \<Rightarrow> nat \<Rightarrow> loop_vars \<Rightarrow> loop_vars" where
  "iteration w apiKey systemPrompt proxyList usernames i l =
     (let uname = usernames ! i;
          l1 = l\<lparr>job := (job l)\<lparr>index := i, currentUsername := Some uname\<rparr>\<rparr>;
          l2 = dispatch w apiKey systemPrompt proxyList i uname l1;
          l3 = l2\<lparr>now := now l2 + int (round_trip w i)\<rparr>
      in if int i < int (length usernames) - 1
         then
           let target = now l3 + waitSec w i * 1000
           in wait_loop target (l3\<lparr>job := (job l3)\<lparr>nextSendAt := Some target\<rparr>\<rparr>)
         else l3)"

text \<open>Lines 165 and 166: \<open>for (let i = 0; i < n; i++) { if (!state.running) break; ... }\<close>\<close>

function for_loop :: "(nat \<Rightarrow> loop_vars \<Rightarrow> loop_vars) \<Rightarrow> nat \<Rightarrow> nat \<Rightarrow> loop_vars \<Rightarrow> loop_vars" where
  "for_loop body n i l =
     (if i < n
      then (if \<not> running (job l) then l else for_loop body n (Suc i) (body i l))
      else l)"
  by pat_completeness auto
termination
  by (relation "measure (\<lambda>(body, n, i, l). n - i)") auto

declare for_loop.simps [simp del]

text \<open>Lines 160 to 221: the background task with its \<open>finally\<close> block.\<close>

definition background ::
  "world \<Rightarrow> jsstring \<Rightarrow> jsstring \<Rightarrow> jsstring list \<Rightarrow> jsstring list \<Rightarrow> JobState \<Rightarrow> loop_vars" where
  "background w apiKey systemPrompt proxyList usernames st =
     (let l0 = \<lparr>job = st, proxyIndex = 0, proxyUrls = [], now = started_at w, seen = [st]\<rparr>;
          l1 = for_loop (iteration w apiKey systemPrompt proxyList usernames) (length usernames) 0 l0
      in await (l1\<lparr>job := (job l1)\<lparr>running := False, currentUsername := None, nextSendAt := None\<rparr>\<rparr>))"

section \<open>The routes\<close>

record start_request =
  igUsername :: jsstring
  igPassword :: jsstring
  systemPrompt :: jsstring
  usernames :: "jsstring list option"
  proxies :: "jsstring list option"
  req_userAgent :: "jsstring option"

text \<open>
  \<open>usernames\<close> and \<open>proxies\<close> are \<open>None\<close> when the field of the request body is not an array.
  A handler returns the status code of its response and the values that \<open>state\<close> takes
  from the arrival of the request on: for an accepted start these are the value before
  the request, the value after lines 145 to 157, and what the background task lets see.
\<close>

definition validated_proxies :: "world \<Rightarrow> jsstring list option \<Rightarrow> jsstring list" where
  "validated_proxies w ps = (case ps of None \<Rightarrow> [] | Some l \<Rightarrow> filter (isValidProxy w) l)"

definition started_state :: "start_request \<Rightarrow> jsstring list \<Rightarrow> JobState" where
  "started_state req names =
     \<lparr>running = True, igUser = Some (igUsername req), total_count = length names, index = 0,
      sent = 0, failed = 0, currentUsername = None, currentProxy = None,
      userAgent = req_userAgent req, nextSendAt = None, lastError = None,
      lastStep = Some (u16 ''login_success'')\<rparr>"

definition api_start :: "world \<Rightarrow> start_request \<Rightarrow> JobState \<Rightarrow> nat \<times> JobState list" where
  "api_start w req st =
     (if running st then (400, [st])
      else
        case usernames req of
          None \<Rightarrow> (400, [st])
        | Some names \<Rightarrow>
            if igUsername req = [] \<or> igPassword req = [] \<or> systemPrompt req = [] \<or> length names = 0
            then (400, [st])
            else
              (case api_key w of
                 None \<Rightarrow> (400, [st])
               | Some apiKey \<Rightarrow>
                   if apiKey = [] then (400, [st])
                   else
                     (case login w (igUsername req) (igPassword req) of
                        Some e \<Rightarrow> (500, [st])
                      | None \<Rightarrow>
                          (200, st # seen (background w apiKey (systemPrompt req)
                                     (validated_proxies w (proxies req)) names
                                     (started_state req names))))))"

datatype http_method = GET | HEAD | POST | PUT | PATCH | DELETE | OPTIONS

text \<open>
  Express matches a route against the path of the request, that is the URL up to the
  first question mark, without regard to the case of ASCII letters and with an optional
  slash at the end (case-sensitive and strict routing are off by default).
\<close>

definition lower_ascii :: "16 word \<Rightarrow> 16 word" where
  "lower_ascii c = (if 0x41 \<le> c \<and> c \<le> 0x5A then c + 0x20 else c)"

definition route_matches :: "string \<Rightarrow> jsstring \<Rightarrow> bool" where
  "route_matches pattern url =
     (let path = map lower_ascii (takeWhile (\<lambda>c. c \<noteq> 0x3F) url)
      in path = u16 pattern \<or> path = u16 pattern @ [0x2F])"

text \<open>
  The application registers two routes, \<open>POST /api/start\<close> and \<open>GET /api/status\<close>. A route
  for GET also serves HEAD, an OPTIONS request for a registered path is answered by
  Express itself, and any other request gets 404. None of these touches \<open>state\<close>, except
  the start.
\<close>

definition handle ::
  "world \<Rightarrow> http_method \<Rightarrow> jsstring \<Rightarrow> start_request \<Rightarrow> JobState \<Rightarrow> nat \<times> JobState list" where
  "handle w verb url req st =
     (if verb = POST \<and> route_matches ''/api/start'' url then api_start w req st
      else if (verb = GET \<or> verb = HEAD) \<and> route_matches ''/api/status'' url then (200, [st])
      else if verb = OPTIONS \<and> (route_matches ''/api/start'' url \<or> route_matches ''/api/status'' url)
      then (200, [st])
      else (404, [st]))"

text \<open>The values that the variable \<open>state\<close> can take.\<close>

inductive reachable :: "JobState \<Rightarrow> bool" where
  start: "reachable initial_state"
| request: "reachable st \<Longrightarrow> handle w verb url req st = (code, history) \<Longrightarrow> st' \<in> set history
            \<Longrightarrow> reachable st'"

definition step_names :: "jsstring list" where
  "step_names = [u16 ''login_success'', u16 ''resolve_user_pk'', u16 ''generate_message'', u16 ''send_dm'']"


section \<open>Invariants of the loop\<close>

text \<open>\<open>delivered\<close>: the \<open>try\<close> block for the recipient at index \<open>i\<close> runs to its end.\<close>

definition delivered :: "world \<Rightarrow> jsstring \<Rightarrow> jsstring \<Rightarrow> jsstring list \<Rightarrow> nat \<Rightarrow> bool" where
  "delivered w apiKey prompt names i = (thrown w apiKey prompt i (names ! i) = None)"

text \<open>\<open>assigned\<close>: the proxy of the dispatch attempt with number \<open>i\<close>, counted from 0.\<close>

definition assigned :: "jsstring list \<Rightarrow> nat \<Rightarrow> jsstring option" where
  "assigned proxyList i = (if proxyList = [] then None else Some (proxyList ! (i mod length proxyList)))"

text \<open>What holds of every value of \<open>state\<close>, and what holds when the loop reaches index \<open>i\<close>.\<close>

definition good :: "JobState \<Rightarrow> bool" where
  "good s = (lastStep s \<in> insert None (Some ` set step_names)
     \<and> (nextSendAt s = None \<longleftrightarrow> \<not> running s \<or> sent s + failed s = 0))"

definition loop_inv ::
  "world \<Rightarrow> jsstring \<Rightarrow> jsstring \<Rightarrow> jsstring list \<Rightarrow> jsstring list \<Rightarrow> nat \<Rightarrow> loop_vars \<Rightarrow> bool" where
  "loop_inv w k sp pl us i l =
     (running (job l) \<and> total_count (job l) = length us
      \<and> sent (job l) = length (filter (delivered w k sp us) [0..<i])
      \<and> failed (job l) = length (filter (\<lambda>j. \<not> delivered w k sp us j) [0..<i])
      \<and> (0 < i \<longrightarrow> index (job l) = i - 1)
      \<and> (i < length us \<longrightarrow> (nextSendAt (job l) = None \<longleftrightarrow> i = 0))
      \<and> lastStep (job l) \<in> Some ` set step_names
      \<and> proxyUrls l = map (assigned pl) [0..<i]
      \<and> proxyIndex l = (if pl = [] then 0 else i)
      \<and> (\<forall>s\<in>set (seen l). good s))"

section \<open>An example run\<close>

text \<open>
  Two recipients, \<open>alice\<close> and \<open>bob\<close>. Every call succeeds, except that resolving \<open>bob\<close>
  fails. \<open>Math.random()\<close> always returns 0, so the pause after \<open>alice\<close> is
  3600 + 180 + 60 seconds, and the clock starts at 0. \<open>example_resolving\<close> is the value of
  \<open>state\<close> while the loop awaits the resolution of \<open>bob\<close>. \<open>example_vars\<close> are loop
  variables in which an earlier recipient has failed.
\<close>

definition example_world :: world where
  "example_world =
     \<lparr>api_key = Some (u16 ''key''),
      login = (\<lambda>u p. None),
      parse_url = (\<lambda>p. None),
      searchExact = (\<lambda>i u. if u = u16 ''bob'' then Inl (u16 ''User not found'')
                           else Inr \<lparr>pk = u16 ''1'', full_name = Some (u16 ''Alice'')\<rparr>),
      fetch_completion = (\<lambda>i k sp m. Inr \<lparr>ok = True, status = 200, content = Inr (Some (u16 ''Hi [Name]''))\<rparr>),
      broadcastText = (\<lambda>i p m. None),
      round_trip = (\<lambda>i. 0),
      math_random = (\<lambda>i j. 0),
      started_at = 0\<rparr>"

definition example_request :: start_request where
  "example_request =
     \<lparr>igUsername = u16 ''u'', igPassword = u16 ''p'', systemPrompt = u16 ''s'',
      usernames = Some [u16 ''alice'', u16 ''bob''], proxies = None, req_userAgent = None\<rparr>"

definition example_resolving :: JobState where
  "example_resolving =
     \<lparr>running = True, igUser = Some (u16 ''u''), total_count = 2, index = 1, sent = 1, failed = 0,
      currentUsername = Some (u16 ''bob''), currentProxy = None, userAgent = None,
      nextSendAt = Some 3840000, lastError = None, lastStep = Some (u16 ''resolve_user_pk'')\<rparr>"

definition example_vars :: loop_vars where
  "example_vars =
     \<lparr>job = initial_state\<lparr>running := True, total_count := 2, sent := 3, failed := 4,
                           lastError := Some (u16 ''earlier failure'')\<rparr>,
      proxyIndex = 0, proxyUrls = [], now = 0, seen = []\<rparr>"

section \<open>Properties of the sanitizer\<close>

lemmas sanitize_eval =
  sanitizeMessage_def trim_def fallback_of_def replace_bracket_def replace_brace_def
  replace_angle_def strip_markdown_def strip_brackets_def collapse_ws_nl_def collapse_nl3_def
  collapse_ws2_def by_string_def match_group_def match_bracket_def match_brace_def
  match_angle_def match_class_def match_ws_nl_def match_nl3_def match_ws2_def
  bracket_names_def brace_names_def starts_with_def ci_name_def md_char_def bracket_char_def
  is_space_def u16_def Let_def

subsection \<open>The scan\<close>

lemma getSubstitution_plain:
  "DOLLAR \<notin> set r \<Longrightarrow> getSubstitution m l a r = r"
  by (induction m l a r rule: getSubstitution.induct) auto

lemma by_string_plain: "DOLLAR \<notin> set r \<Longrightarrow> by_string r m l a = r"
  by (simp add: by_string_def getSubstitution_plain)

lemma set_getSubstitution:
  "set (getSubstitution m l a r) \<subseteq> set r \<union> set m \<union> set l \<union> set a"
  by (induction m l a r rule: getSubstitution.induct) auto

lemma set_replace_g:
  "set (replace_g m (by_string fb) left s) \<subseteq> set left \<union> set s \<union> set fb"
proof (induction m "by_string fb" left s rule: replace_g.induct)
  case (1 m left)
  show ?case using set_getSubstitution [of "[]" left "[]" fb]
    by (auto simp: by_string_def split: option.splits)
next
  case (2 m left c r)
  show ?case
  proof (cases "m (c # r)")
    case None
    with 2 show ?thesis by auto
  next
    case (Some n)
    show ?thesis
    proof (cases n)
      case 0
      with Some 2 set_getSubstitution [of "[]" left "c # r" fb] show ?thesis
        by (auto simp: by_string_def)
    next
      case (Suc k)
      have "set (take k r) \<subseteq> set r" "set (drop k r) \<subseteq> set r"
        by (auto dest: in_set_takeD in_set_dropD)
      with Suc Some 2 set_getSubstitution [of "c # take k r" left "drop k r" fb] show ?thesis
        by (auto simp: by_string_def)
    qed
  qed
qed

lemma set_replace_g_plain:
  assumes "DOLLAR \<notin> set rep"
  shows "set (replace_g m (by_string rep) left s) \<subseteq> set s \<union> set rep"
proof (induction m "by_string rep" left s rule: replace_g.induct)
  case (1 m left)
  show ?case using assms by (auto simp: by_string_plain split: option.splits)
next
  case (2 m left c r)
  show ?case
  proof (cases "m (c # r)")
    case None
    with 2 show ?thesis by auto
  next
    case (Some n)
    show ?thesis
    proof (cases n)
      case 0
      with Some 2 assms show ?thesis by (auto simp: by_string_plain)
    next
      case (Suc k)
      have "set (drop k r) \<subseteq> set r" by (auto dest: in_set_dropD)
      with Suc Some 2 assms show ?thesis by (auto simp: by_string_plain)
    qed
  qed
qed

lemma strip_class:
  "replace_g (match_class P) (by_string []) left s = filter (\<lambda>c. \<not> P c) s"
  by (induction s arbitrary: left) (auto simp: match_class_def by_string_def)

subsection \<open>Stripped characters\<close>

lemma set_trim: "set (trim s) \<subseteq> set s"
  by (auto simp: trim_def dest!: set_dropWhileD)

lemma set_collapse:
  "set (collapse_ws2 (collapse_nl3 (collapse_ws_nl s))) \<subseteq> set s \<union> {LF, SP}"
proof -
  have a: "set (collapse_ws_nl s) \<subseteq> set s \<union> {LF}"
    using set_replace_g_plain [of "[LF]" match_ws_nl "[]" s] by (simp add: collapse_ws_nl_def)
  have b: "set (collapse_nl3 t) \<subseteq> set t \<union> {LF}" for t
    using set_replace_g_plain [of "[LF, LF]" match_nl3 "[]" t] by (simp add: collapse_nl3_def)
  have c: "set (collapse_ws2 t) \<subseteq> set t \<union> {SP}" for t
    using set_replace_g_plain [of "[SP]" match_ws2 "[]" t] by (simp add: collapse_ws2_def)
  from a b [of "collapse_ws_nl s"] c [of "collapse_nl3 (collapse_ws_nl s)"] show ?thesis
    by blast
qed

lemma set_strip:
  "set (strip_brackets (strip_markdown s)) = {c \<in> set s. \<not> md_char c \<and> \<not> bracket_char c}"
  by (auto simp: strip_brackets_def strip_markdown_def strip_class)

lemma markup_chars_iff: "c \<in> markup_chars \<longleftrightarrow> md_char c \<or> bracket_char c"
  by (auto simp: markup_chars_def md_char_def bracket_char_def)

lemma sanitizeMessage_markup_free:
  "set (sanitizeMessage msg name username) \<inter> markup_chars = {}"
proof -
  define t where "t = replace_angle (fallback_of name username)
     (replace_brace (fallback_of name username) (replace_bracket (fallback_of name username) (trim msg)))"
  have out: "sanitizeMessage msg name username
      = trim (collapse_ws2 (collapse_nl3 (collapse_ws_nl (strip_brackets (strip_markdown t)))))"
    by (simp add: sanitizeMessage_def t_def Let_def)
  have "set (sanitizeMessage msg name username)
      \<subseteq> {c \<in> set t. \<not> md_char c \<and> \<not> bracket_char c} \<union> {LF, SP}"
    unfolding out using set_trim set_collapse [of "strip_brackets (strip_markdown t)"] set_strip [of t]
    by blast
  moreover have "LF \<notin> markup_chars" "SP \<notin> markup_chars"
    by (simp_all add: markup_chars_def)
  ultimately show ?thesis
    by (auto simp: markup_chars_iff)
qed

text \<open>
  C8. Whatever the text, the display name and the handle are (also when the name or the
  handle contain such characters themselves), the sanitized message contains none of the
  characters \<open>* ` _ > # [ ] <\<close>.
\<close>

theorem sanitizeMessage_no_markup:
  "set (sanitizeMessage msg name username) \<inter> markup_chars = {}"
  by (rule sanitizeMessage_markup_free)

subsection \<open>Line breaks\<close>

text \<open>
  C3. The text \<open>a\n\n\nb\<close> (three line breaks between two letters) is sanitized to
  \<open>a\nb\<close>: the pass for \<open>\s+\n\<close> runs first and, a line feed being white space, already
  turns the three line breaks into one, so the pass for \<open>\n{3,}\<close> finds nothing to turn
  into two line breaks.
\<close>

theorem sanitizeMessage_three_line_breaks:
  "sanitizeMessage [0x61, LF, LF, LF, 0x62] (u16 ''Bob'') (u16 ''bob'') = [0x61, LF, 0x62]"
  by (simp add: sanitize_eval)

subsection \<open>Texts that a pass leaves alone\<close>

lemma no_match_id: "\<not> has_match m s \<Longrightarrow> replace_g m sub left s = s"
  by (induction s arbitrary: left) auto

lemma no_match_by_head:
  assumes "\<And>t. m t \<noteq> None \<Longrightarrow> t \<noteq> [] \<and> P (hd t)" and "\<forall>c\<in>set s. \<not> P c"
  shows "\<not> has_match m s"
  using assms(2)
proof (induction s)
  case Nil
  then show ?case using assms(1) [of "[]"] by (cases "m []") auto
next
  case (Cons c r)
  then show ?case using assms(1) [of "c # r"] by (cases "m (c # r)") auto
qed

lemma no_match_by_pair:
  assumes "\<And>t. m t \<noteq> None \<Longrightarrow> (\<exists>a b r. t = a # b # r \<and> is_space a \<and> is_space b)"
    and "successively apart s"
  shows "\<not> has_match m s"
  using assms(2)
proof (induction s)
  case Nil
  then show ?case using assms(1) [of "[]"] by (cases "m []") auto
next
  case (Cons c r)
  have "m (c # r) = None"
  proof (rule ccontr)
    assume "m (c # r) \<noteq> None"
    then obtain a b r' where "c # r = a # b # r'" "is_space a" "is_space b"
      using assms(1) by blast
    with Cons.prems show False by (auto simp: successively_Cons apart_def)
  qed
  moreover have "successively apart r" using Cons.prems by (auto simp: successively_Cons)
  ultimately show ?case using Cons.IH by simp
qed

lemma match_group_head: "match_group op alts cl t \<noteq> None \<Longrightarrow> t \<noteq> [] \<and> hd t = op"
  by (auto simp: match_group_def split: list.splits if_splits)

lemma match_angle_head: "match_angle t \<noteq> None \<Longrightarrow> t \<noteq> [] \<and> hd t = 0x3C"
  by (auto simp: match_angle_def Let_def split: list.splits if_splits)

lemma match_class_head: "match_class P t \<noteq> None \<Longrightarrow> t \<noteq> [] \<and> P (hd t)"
  by (auto simp: match_class_def split: list.splits if_splits)

lemma is_space_LF: "is_space LF"
  by (simp add: is_space_def)

lemma match_ws2_pair:
  "match_ws2 t \<noteq> None \<Longrightarrow> \<exists>a b r. t = a # b # r \<and> is_space a \<and> is_space b"
  by (cases t rule: list.exhaust; cases "tl t")
     (auto simp: match_ws2_def Let_def split: if_splits)

lemma match_nl3_pair:
  "match_nl3 t \<noteq> None \<Longrightarrow> \<exists>a b r. t = a # b # r \<and> is_space a \<and> is_space b"
  by (cases t rule: list.exhaust; cases "tl t")
     (auto simp: match_nl3_def Let_def is_space_LF split: if_splits)

lemma match_ws_nl_pair:
  assumes "match_ws_nl t \<noteq> None"
  shows "\<exists>a b r. t = a # b # r \<and> is_space a \<and> is_space b"
proof -
  from assms obtain k where
    k: "find (\<lambda>k. k < length t \<and> t ! k = LF) (rev [1..<Suc (length (takeWhile is_space t))]) = Some k"
    by (auto simp: match_ws_nl_def Let_def)
  then have "k \<in> set (rev [1..<Suc (length (takeWhile is_space t))]) \<and> k < length t \<and> t ! k = LF"
    unfolding find_Some_iff by (metis nth_mem)
  then have k1: "1 \<le> k" and kr: "k \<le> length (takeWhile is_space t)" and kl: "k < length t"
    and kn: "t ! k = LF"
    by auto
  show ?thesis
  proof (cases t)
    case Nil
    with kl show ?thesis by simp
  next
    case (Cons a r)
    show ?thesis
    proof (cases r)
      case Nil
      with Cons kl k1 show ?thesis by simp
    next
      case (Cons b r')
      have sa: "is_space a" using k1 kr \<open>t = a # r\<close> by (auto split: if_splits)
      have "is_space b"
      proof (cases "k = 1")
        case True
        with kn \<open>t = a # r\<close> Cons show ?thesis by (simp add: is_space_LF)
      next
        case False
        with k1 kr \<open>t = a # r\<close> Cons sa show ?thesis by (auto split: if_splits)
      qed
      with sa \<open>t = a # r\<close> Cons show ?thesis by simp
    qed
  qed
qed

lemma dropWhile_start: "xs = [] \<or> \<not> P (hd xs) \<Longrightarrow> dropWhile P xs = xs"
  by (cases xs) auto

lemma start_dropWhile: "dropWhile P xs = [] \<or> \<not> P (hd (dropWhile P xs))"
  by (metis hd_dropWhile)

lemma successively_dropWhile:
  "successively R xs \<Longrightarrow> successively R (dropWhile P xs)"
  using successively_append_iff [of R "takeWhile P xs" "dropWhile P xs"] by simp

lemma successively_apart_rev: "successively apart (rev xs) = successively apart xs"
proof -
  have "(\<lambda>x y. apart y x) = apart" by (auto simp: apart_def fun_eq_iff)
  then show ?thesis by (metis successively_rev)
qed

lemma successively_trim: "successively apart s \<Longrightarrow> successively apart (trim s)"
  by (simp add: trim_def successively_apart_rev successively_dropWhile)

lemma last_dropWhile: "dropWhile P xs \<noteq> [] \<Longrightarrow> last (dropWhile P xs) = last xs"
  by (metis append_self_conv2 last_appendR takeWhile_dropWhile_id)

lemma trim_trim: "trim (trim s) = trim s"
proof -
  define a where "a = dropWhile is_space s"
  define b where "b = dropWhile is_space (rev a)"
  have t: "trim s = rev b" by (simp add: trim_def a_def b_def)
  have "rev b = [] \<or> \<not> is_space (hd (rev b))"
  proof (cases "b = []")
    case True
    then show ?thesis by simp
  next
    case False
    then have "last b = last (rev a)" unfolding b_def by (rule last_dropWhile)
    moreover from False have "a \<noteq> []" by (auto simp: b_def)
    ultimately have "last b = hd a" by (simp add: last_rev)
    moreover have "\<not> is_space (hd a)" using \<open>a \<noteq> []\<close> unfolding a_def by (metis hd_dropWhile)
    ultimately show ?thesis using False by (simp add: hd_rev)
  qed
  then have "dropWhile is_space (rev b) = rev b" by (rule dropWhile_start)
  moreover have "dropWhile is_space b = b" unfolding b_def by (simp add: dropWhile_idem)
  ultimately have "trim (rev b) = rev b" by (simp add: trim_def [of "rev b"])
  then show ?thesis by (simp add: t)
qed

lemma collapse_ws2_shape:
  "successively apart (replace_g match_ws2 (by_string [SP]) left s)
   \<and> (s = [] \<or> \<not> is_space (hd s) \<longrightarrow>
        replace_g match_ws2 (by_string [SP]) left s = []
        \<or> \<not> is_space (hd (replace_g match_ws2 (by_string [SP]) left s)))"
proof (induction s arbitrary: left rule: length_induct)
  case (1 s)
  show ?case
  proof (cases s)
    case Nil
    then show ?thesis by (simp add: match_ws2_def)
  next
    case (Cons c r)
    let ?out = "\<lambda>l t. replace_g match_ws2 (by_string [SP]) l t"
    show ?thesis
    proof (cases "is_space c \<and> r \<noteq> [] \<and> is_space (hd r)")
      case True
      then obtain d r' where r: "r = d # r'" "is_space d" "is_space c" by (cases r) auto
      define k where "k = length (takeWhile is_space r)"
      have m: "match_ws2 (c # r) = Some (Suc k)"
        using r by (simp add: match_ws2_def k_def)
      have dr: "drop k r = dropWhile is_space r"
        unfolding k_def by (metis dropWhile_eq_drop)
      have out: "?out left s = SP # ?out (left @ c # take k r) (dropWhile is_space r)"
        using m Cons dr by (simp add: by_string_def)
      have "length (dropWhile is_space r) < length s"
        using Cons by (simp add: length_dropWhile_le le_imp_less_Suc)
      then have ih: "successively apart (?out (left @ c # take k r) (dropWhile is_space r))"
        "?out (left @ c # take k r) (dropWhile is_space r) = []
          \<or> \<not> is_space (hd (?out (left @ c # take k r) (dropWhile is_space r)))"
        using 1 start_dropWhile [of is_space r] by blast+
      then have "successively apart (?out left s)"
        unfolding out by (auto simp: successively_Cons apart_def)
      moreover have "\<not> (s = [] \<or> \<not> is_space (hd s))" using Cons r by simp
      ultimately show ?thesis by blast
    next
      case False
      then have m: "match_ws2 (c # r) = None"
        by (cases r) (auto simp: match_ws2_def)
      have out: "?out left s = c # ?out (left @ [c]) r"
        using m Cons by simp
      have ih: "successively apart (?out (left @ [c]) r)"
        "r = [] \<or> \<not> is_space (hd r) \<longrightarrow> ?out (left @ [c]) r = []
           \<or> \<not> is_space (hd (?out (left @ [c]) r))"
        using 1 Cons by auto
      have "successively apart (?out left s)"
        unfolding out using ih False by (auto simp: successively_Cons apart_def)
      moreover have "\<not> is_space (hd s) \<longrightarrow> \<not> is_space (hd (?out left s))"
        unfolding out using Cons by simp
      moreover have "?out left s \<noteq> []" unfolding out by simp
      ultimately show ?thesis using Cons by auto
    qed
  qed
qed

lemma sanitizeMessage_apart: "successively apart (sanitizeMessage msg name username)"
  unfolding sanitizeMessage_def Let_def
  by (rule successively_trim) (simp add: collapse_ws2_def collapse_ws2_shape)

lemma successively_nth:
  "successively R xs \<Longrightarrow> Suc i < length xs \<Longrightarrow> R (xs ! i) (xs ! Suc i)"
proof (induction xs arbitrary: i)
  case Nil
  then show ?case by simp
next
  case (Cons x xs)
  show ?case
  proof (cases i)
    case 0
    with Cons.prems show ?thesis by (cases xs) (auto simp: successively_Cons)
  next
    case (Suc j)
    with Cons show ?thesis by (auto simp: successively_Cons)
  qed
qed

text \<open>No sanitized message contains two line breaks in a row.\<close>

lemma sanitizeMessage_single_line_breaks:
  assumes "Suc i < length (sanitizeMessage msg name username)"
  shows "\<not> (sanitizeMessage msg name username ! i = LF \<and> sanitizeMessage msg name username ! Suc i = LF)"
  using successively_nth [OF sanitizeMessage_apart assms] by (auto simp: apart_def is_space_LF)

lemma sanitizeMessage_paragraph_break:
  "sanitizeMessage [0x61, LF, LF, 0x62] (u16 ''Bob'') (u16 ''bob'') = [0x61, LF, 0x62]"
  by (simp add: sanitize_eval)

subsection \<open>A second pass\<close>

lemma sanitizeMessage_trimmed: "trim (sanitizeMessage msg name username) = sanitizeMessage msg name username"
  by (simp add: sanitizeMessage_def Let_def trim_trim)

lemma no_group_match: "op \<notin> set s \<Longrightarrow> \<not> has_match (match_group op alts cl) s"
  using no_match_by_head [of "match_group op alts cl" "\<lambda>c. c = op" s] match_group_head [of op alts cl]
  by auto

lemma no_angle_match: "0x3C \<notin> set s \<Longrightarrow> \<not> has_match match_angle s"
  using no_match_by_head [of match_angle "\<lambda>c. c = 0x3C" s] match_angle_head
  by auto

lemma sanitizeMessage_fixed:
  assumes "tidy y"
  shows "sanitizeMessage y name username = y"
proof -
  define fb where "fb = fallback_of name username"
  from assms have mk: "\<forall>c\<in>set y. c \<notin> markup_chars" and ap: "successively apart y"
    and tr: "trim y = y" and nb: "\<not> has_match match_brace y"
    by (simp_all add: tidy_def list_all_iff)
  have "0x5B \<notin> set y" using mk by (auto simp: markup_chars_def)
  then have "\<not> has_match match_bracket y"
    unfolding match_bracket_def by (rule no_group_match)
  then have s1: "replace_bracket fb y = y"
    by (simp add: replace_bracket_def no_match_id)
  have s2: "replace_brace fb y = y"
    using nb by (simp add: replace_brace_def no_match_id)
  have "0x3C \<notin> set y" using mk by (auto simp: markup_chars_def)
  then have "\<not> has_match match_angle y"
    by (rule no_angle_match)
  then have s3: "replace_angle fb y = y"
    by (simp add: replace_angle_def no_match_id)
  have s4: "strip_markdown y = y"
    using mk by (auto simp: strip_markdown_def strip_class markup_chars_iff filter_id_conv)
  have s5: "strip_brackets y = y"
    using mk by (auto simp: strip_brackets_def strip_class markup_chars_iff filter_id_conv)
  have s6: "collapse_ws_nl y = y"
    using no_match_by_pair [OF match_ws_nl_pair ap] by (simp add: collapse_ws_nl_def no_match_id)
  have s7: "collapse_nl3 y = y"
    using no_match_by_pair [OF match_nl3_pair ap] by (simp add: collapse_nl3_def no_match_id)
  have s8: "collapse_ws2 y = y"
    using no_match_by_pair [OF match_ws2_pair ap] by (simp add: collapse_ws2_def no_match_id)
  show ?thesis
    unfolding sanitizeMessage_def Let_def fb_def [symmetric]
    by (simp only: tr s1 s2 s3 s4 s5 s6 s7 s8)
qed

text \<open>
  C7. A second pass over a sanitized message changes nothing, provided the
  message contains no brace placeholder \<open>{name}\<close> or \<open>{Name}\<close>: braces are never
  stripped, so stripping a character out of \<open>{na*me}\<close> in the first pass can leave a
  placeholder that only a second pass substitutes.
\<close>

theorem sanitizeMessage_idempotent:
  assumes "\<not> has_match match_brace (sanitizeMessage x name username)"
  shows "sanitizeMessage (sanitizeMessage x name username) name username
         = sanitizeMessage x name username"
proof (rule sanitizeMessage_fixed)
  have "\<forall>c\<in>set (sanitizeMessage x name username). c \<notin> markup_chars"
    using sanitizeMessage_markup_free [of x name username] by auto
  then show "tidy (sanitizeMessage x name username)"
    using assms by (simp add: tidy_def list_all_iff sanitizeMessage_apart sanitizeMessage_trimmed)
qed

theorem sanitizeMessage_idempotent_witness:
  "\<not> has_match match_brace (sanitizeMessage (u16 ''Hi *[Name]*,  {name}!'') (u16 ''Bob'') (u16 ''bob''))
   \<and> sanitizeMessage (sanitizeMessage (u16 ''Hi *[Name]*,  {name}!'') (u16 ''Bob'') (u16 ''bob''))
        (u16 ''Bob'') (u16 ''bob'') = u16 ''Hi Bob, Bob!''"
proof -
  have v: "sanitizeMessage (u16 ''Hi *[Name]*,  {name}!'') (u16 ''Bob'') (u16 ''bob'') = u16 ''Hi Bob, Bob!''"
    by (simp add: sanitize_eval)
  have h: "\<not> has_match match_brace (sanitizeMessage (u16 ''Hi *[Name]*,  {name}!'') (u16 ''Bob'') (u16 ''bob''))"
    unfolding v by (simp add: u16_def match_brace_def match_group_def)
  from sanitizeMessage_idempotent [OF h] h v show ?thesis by simp
qed

text \<open>The text \<open>{na*me}\<close> is sanitized to \<open>{name}\<close>, and that to \<open>Bob\<close>.\<close>

theorem sanitizeMessage_not_idempotent:
  "sanitizeMessage (sanitizeMessage (u16 ''{na*me}'') (u16 ''Bob'') (u16 ''bob'')) (u16 ''Bob'') (u16 ''bob'')
   \<noteq> sanitizeMessage (u16 ''{na*me}'') (u16 ''Bob'') (u16 ''bob'')"
  by (simp add: sanitize_eval)

subsection \<open>Placeholders\<close>

lemma replace_g_left:
  assumes "DOLLAR \<notin> set fb"
  shows "replace_g m (by_string fb) left s = replace_g m (by_string fb) [] s"
proof (induction s arbitrary: left rule: length_induct)
  case (1 s)
  have ih: "length t < length s \<Longrightarrow> replace_g m (by_string fb) l t = replace_g m (by_string fb) [] t" for t l
    using 1 by blast
  show ?case
  proof (cases s)
    case Nil
    then show ?thesis using assms by (simp add: by_string_plain split: option.splits)
  next
    case (Cons c r)
    have a: "replace_g m (by_string fb) l r = replace_g m (by_string fb) [] r" for l
      using ih [of r l] Cons by simp
    have b: "replace_g m (by_string fb) l (drop k r) = replace_g m (by_string fb) [] (drop k r)" for l k
      using ih [of "drop k r" l] Cons by simp
    show ?thesis
      unfolding Cons replace_g.simps
      by (simp add: by_string_plain [OF assms] a [of "left @ [c]"] a [of "[c]"]
          b [of "left @ c # take k r" k for k] b [of "c # take k r" k for k]
          split: option.splits nat.splits)
  qed
qed

lemma replace_plain_Cons:
  assumes "DOLLAR \<notin> set fb"
  shows "replace_g m (by_string fb) [] (c # r) =
    (case m (c # r) of
       None \<Rightarrow> c # replace_g m (by_string fb) [] r
     | Some 0 \<Rightarrow> fb @ c # replace_g m (by_string fb) [] r
     | Some (Suc k) \<Rightarrow> fb @ replace_g m (by_string fb) [] (drop k r))"
  by (simp add: by_string_plain [OF assms] replace_g_left [OF assms, of m "[c]"]
      replace_g_left [OF assms, of m "c # take k r" for k]
      split: option.splits nat.splits)

lemma replace_g_token:
  assumes plain: "DOLLAR \<notin> set fb"
    and empty: "m [] = None"
    and bounded: "\<And>s n. m s = Some n \<Longrightarrow> 0 < n \<and> n \<le> length s"
    and extend: "\<And>s n t. m s = Some n \<Longrightarrow> m (s @ t) = Some n"
    and closed: "\<And>s t. s \<noteq> [] \<Longrightarrow> m s = None \<Longrightarrow> m (s @ tok @ t) = None"
    and tok: "m tok = Some (length tok)"
  shows "replace_g m (by_string fb) [] (pre @ tok @ post)
         = replace_g m (by_string fb) [] pre @ fb @ replace_g m (by_string fb) [] post"
proof (induction pre rule: length_induct)
  case (1 pre)
  let ?R = "replace_g m (by_string fb) []"
  show ?case
  proof (cases pre)
    case Nil
    from tok bounded [of tok "length tok"] obtain c tk where t: "tok = c # tk"
      by (cases tok) auto
    have "m (c # tk @ post) = Some (Suc (length tk))"
      using extend [OF tok, of post] t by simp
    then have "?R (tok @ post) = fb @ ?R post"
      using t by (simp add: replace_plain_Cons [OF plain] del: replace_g.simps)
    with Nil empty show ?thesis by simp
  next
    case (Cons c r)
    have ih: "length p < length pre \<Longrightarrow> ?R (p @ tok @ post) = ?R p @ fb @ ?R post" for p
      using 1 by blast
    show ?thesis
    proof (cases "m pre")
      case None
      then have "m (c # r @ tok @ post) = None"
        using closed [of pre post] Cons by simp
      with None Cons ih [of r] show ?thesis
        by (simp add: replace_plain_Cons [OF plain] del: replace_g.simps)
    next
      case (Some n)
      with bounded [of pre n] obtain k where n: "n = Suc k" and k: "k \<le> length r"
        using Cons by (cases n) auto
      have "m (c # r @ tok @ post) = Some (Suc k)"
        using extend [of pre n "tok @ post"] Some n Cons by simp
      moreover have "m (c # r) = Some (Suc k)" using Some n Cons by simp
      moreover have "drop k (r @ tok @ post) = drop k r @ tok @ post" using k by simp
      ultimately show ?thesis
        using ih [of "drop k r"] Cons by (simp add: replace_plain_Cons [OF plain] del: replace_g.simps)
    qed
  qed
qed

lemma starts_with_length: "starts_with p r \<Longrightarrow> length p \<le> length r"
proof -
  assume "starts_with p r"
  then have "length (take (length p) r) = length p" by (simp add: starts_with_def)
  then show ?thesis by simp
qed

lemma starts_with_append: "starts_with p r \<Longrightarrow> starts_with p (r @ t)"
  using starts_with_length [of p r] by (simp add: starts_with_def)

lemma starts_with_nth: "starts_with p s \<Longrightarrow> i < length p \<Longrightarrow> p ! i = s ! i"
proof -
  assume a: "starts_with p s" and i: "i < length p"
  have "take (length p) s ! i = s ! i" using i by simp
  with a show ?thesis by (simp add: starts_with_def)
qed

lemma starts_with_inside: "starts_with p (r @ t) \<Longrightarrow> length p \<le> length r \<Longrightarrow> starts_with p r"
  by (simp add: starts_with_def)

lemma starts_with_across:
  assumes "starts_with p (r @ x # t)" and "length r < length p"
  shows "x \<in> set p"
proof -
  from starts_with_nth [OF assms] have "p ! length r = x" by simp
  with assms(2) show ?thesis using nth_mem [of "length r" p] by simp
qed

lemma match_group_empty: "match_group op alts cl [] = None"
  by (simp add: match_group_def)

lemma match_group_bounded:
  assumes "match_group op alts cl s = Some n"
  shows "0 < n \<and> n \<le> length s"
proof -
  from assms obtain c r a where s: "s = c # r" and "find (\<lambda>a. starts_with (a @ [cl]) r) alts = Some a"
    and n: "n = length a + 2"
    by (auto simp: match_group_def split: list.splits if_splits)
  then have "starts_with (a @ [cl]) r" by (auto simp: find_Some_iff)
  from starts_with_length [OF this] s n show ?thesis by simp
qed

lemma match_group_extend:
  assumes alts: "\<forall>a\<in>set alts. cl \<notin> set a"
    and m: "match_group op alts cl s = Some n"
  shows "match_group op alts cl (s @ t) = Some n"
proof -
  from m obtain c r a where s: "s = c # r" and c: "c = op"
    and f: "find (\<lambda>a. starts_with (a @ [cl]) r) alts = Some a" and n: "n = length a + 2"
    by (auto simp: match_group_def split: list.splits if_splits)
  from f have ar: "starts_with (a @ [cl]) r" by (auto simp: find_Some_iff)
  have "starts_with (b @ [cl]) (r @ t) = starts_with (b @ [cl]) r" if b: "b \<in> set alts" for b
  proof
    assume e: "starts_with (b @ [cl]) (r @ t)"
    show "starts_with (b @ [cl]) r"
    proof (cases "length (b @ [cl]) \<le> length r")
      case True
      with e show ?thesis by (rule starts_with_inside)
    next
      case False
      from ar have ar': "starts_with (a @ [cl]) (r @ t)" by (rule starts_with_append)
      from starts_with_length [OF ar] False have lt: "length a < length b" by simp
      from starts_with_nth [OF e, of "length a"] lt
      have "b ! length a = (r @ t) ! length a" by (simp add: nth_append)
      moreover from starts_with_nth [OF ar', of "length a"]
      have "cl = (r @ t) ! length a" by simp
      ultimately have "b ! length a = cl" by simp
      with lt have "cl \<in> set b" using nth_mem [of "length a" b] by simp
      with alts b show ?thesis by blast
    qed
  qed (rule starts_with_append)
  then have "find (\<lambda>a. starts_with (a @ [cl]) (r @ t)) alts = find (\<lambda>a. starts_with (a @ [cl]) r) alts"
    by (intro find_cong) auto
  with s c f n show ?thesis by (simp add: match_group_def)
qed

lemma match_group_closed:
  assumes alts: "\<forall>a\<in>set alts. op \<notin> set a" and "op \<noteq> cl"
    and tok: "match_group op alts cl tok = Some k"
    and s: "s \<noteq> []" and m: "match_group op alts cl s = None"
  shows "match_group op alts cl (s @ tok @ t) = None"
proof -
  from s obtain c r where cr: "s = c # r" by (cases s) auto
  from tok obtain tk where tk: "tok = op # tk"
    by (auto simp: match_group_def split: list.splits if_splits)
  show ?thesis
  proof (cases "c = op")
    case False
    with cr show ?thesis by (simp add: match_group_def)
  next
    case True
    have "\<not> starts_with (a @ [cl]) (r @ tok @ t)" if a: "a \<in> set alts" for a
    proof
      assume e: "starts_with (a @ [cl]) (r @ tok @ t)"
      from m cr True have no: "\<not> starts_with (a @ [cl]) r"
        using a by (auto simp: match_group_def find_None_iff)
      show False
      proof (cases "length (a @ [cl]) \<le> length r")
        case True
        with e no show False by (blast dest: starts_with_inside)
      next
        case False
        with e tk have "op \<in> set (a @ [cl])"
          using starts_with_across [of "a @ [cl]" r op "tk @ t"] by simp
        with alts a \<open>op \<noteq> cl\<close> show False by auto
      qed
    qed
    then have "find (\<lambda>a. starts_with (a @ [cl]) (r @ tok @ t)) alts = None"
      by (auto simp: find_None_iff)
    with cr show ?thesis by (simp add: match_group_def)
  qed
qed

lemma ci_name_shape:
  "ci_name nm \<Longrightarrow> length nm = 4 \<and> \<not> is_space (hd nm) \<and> 0x3C \<notin> set nm"
  by (auto simp: ci_name_def is_space_def split: list.splits)

lemma not_space_angle: "\<not> is_space 0x3C" "\<not> is_space 0x3E"
  by (simp_all add: is_space_def)

lemma match_angle_Cons:
  "match_angle (0x3C # r) =
    (if \<not> ci_name (take 4 (dropWhile is_space r)) then None
     else case dropWhile is_space (drop 4 (dropWhile is_space r)) of
       [] \<Rightarrow> None
     | d # x \<Rightarrow> if d = 0x3E
         then Some (1 + length (takeWhile is_space r) + 4
                + length (takeWhile is_space (drop 4 (dropWhile is_space r))) + 1)
         else None)"
  by (simp add: match_angle_def Let_def)

lemma match_angle_fw:
  assumes m: "match_angle s = Some n"
  shows "\<exists>w1 nm w2 rest. s = 0x3C # w1 @ nm @ w2 @ 0x3E # rest \<and> (\<forall>c\<in>set w1. is_space c)
        \<and> ci_name nm \<and> (\<forall>c\<in>set w2. is_space c) \<and> n = length w1 + length w2 + 6"
proof -
  from m obtain r where s: "s = 0x3C # r"
    using match_angle_head [of s] by (cases s) auto
  define w1 where "w1 = takeWhile is_space r"
  define r1 where "r1 = dropWhile is_space r"
  define w2 where "w2 = takeWhile is_space (drop 4 r1)"
  define r2 where "r2 = dropWhile is_space (drop 4 r1)"
  have u: "match_angle (0x3C # r) =
    (if \<not> ci_name (take 4 r1) then None
     else case r2 of
       [] \<Rightarrow> None
     | d # x \<Rightarrow> if d = 0x3E then Some (1 + length w1 + 4 + length w2 + 1) else None)"
    unfolding r1_def r2_def w1_def w2_def by (rule match_angle_Cons)
  have m': "match_angle (0x3C # r) = Some n" using m s by simp
  have nm: "ci_name (take 4 r1)"
  proof (rule ccontr)
    assume "\<not> ci_name (take 4 r1)"
    with u have "match_angle (0x3C # r) = None" by simp
    with m' show False by simp
  qed
  have ne: "r2 \<noteq> []"
  proof
    assume "r2 = []"
    with u nm have "match_angle (0x3C # r) = None" by simp
    with m' show False by simp
  qed
  then obtain d rest where r2': "r2 = d # rest" by (cases r2) auto
  have d1: "d = 0x3E"
  proof (rule ccontr)
    assume "d \<noteq> 0x3E"
    with u nm r2' have "match_angle (0x3C # r) = None" by simp
    with m' show False by simp
  qed
  from u nm r2' d1 have "match_angle (0x3C # r) = Some (1 + length w1 + 4 + length w2 + 1)"
    by simp
  with m' have d: "d = 0x3E \<and> n = length w1 + length w2 + 6" using d1 by simp
  have a: "r = w1 @ r1" by (simp add: w1_def r1_def)
  have b: "r1 = take 4 r1 @ drop 4 r1" by simp
  have c: "drop 4 r1 = w2 @ r2" by (simp add: w2_def r2_def)
  have "s = 0x3C # w1 @ take 4 r1 @ w2 @ 0x3E # rest"
    unfolding s using a b c r2' d by (metis append.assoc)
  moreover have "\<forall>c\<in>set w1. is_space c" "\<forall>c\<in>set w2. is_space c"
    by (auto simp: w1_def w2_def dest: set_takeWhileD)
  ultimately show ?thesis
    using nm d by blast
qed

lemma match_angle_bw:
  assumes s: "s = 0x3C # w1 @ nm @ w2 @ 0x3E # rest"
    and w1: "\<forall>c\<in>set w1. is_space c" and nm: "ci_name nm" and w2: "\<forall>c\<in>set w2. is_space c"
  shows "match_angle s = Some (length w1 + length w2 + 6)"
proof -
  from ci_name_shape [OF nm] obtain x nm' where x: "nm = x # nm'" "\<not> is_space x" "length nm = 4"
    by (cases nm) auto
  have d1: "dropWhile is_space (w1 @ nm @ w2 @ 0x3E # rest) = nm @ w2 @ 0x3E # rest"
    using w1 x(1,2) by (simp add: dropWhile_append2)
  have t1: "takeWhile is_space (w1 @ nm @ w2 @ 0x3E # rest) = w1"
    using w1 x(1,2) by (simp add: takeWhile_append2)
  have d2: "dropWhile is_space (w2 @ 0x3E # rest) = 0x3E # rest"
    using w2 by (simp add: dropWhile_append2 not_space_angle)
  have t2: "takeWhile is_space (w2 @ 0x3E # rest) = w2"
    using w2 by (simp add: takeWhile_append2 not_space_angle)
  have tk: "take 4 (nm @ w2 @ 0x3E # rest) = nm" "drop 4 (nm @ w2 @ 0x3E # rest) = w2 @ 0x3E # rest"
    using x(3) by simp_all
  have "match_angle s = Some (1 + length w1 + 4 + length w2 + 1)"
    unfolding s match_angle_Cons d1 t1 tk d2 t2 using nm by simp
  then show ?thesis by simp
qed

lemma match_angle_iff:
  "match_angle s = Some n \<longleftrightarrow>
     (\<exists>w1 nm w2 rest. s = 0x3C # w1 @ nm @ w2 @ 0x3E # rest \<and> (\<forall>c\<in>set w1. is_space c)
        \<and> ci_name nm \<and> (\<forall>c\<in>set w2. is_space c) \<and> n = length w1 + length w2 + 6)"
  using match_angle_fw [of s n] match_angle_bw by blast

lemma match_angle_empty: "match_angle [] = None"
  by (simp add: match_angle_def)

lemma match_angle_bounded:
  assumes "match_angle s = Some n"
  shows "0 < n \<and> n \<le> length s"
proof -
  from assms obtain w1 nm w2 rest where s: "s = 0x3C # w1 @ nm @ w2 @ 0x3E # rest"
    and nm: "ci_name nm" and n: "n = length w1 + length w2 + 6"
    unfolding match_angle_iff by blast
  from ci_name_shape [OF nm] have "length nm = 4" by simp
  with s n show ?thesis by simp
qed

lemma match_angle_extend:
  assumes "match_angle s = Some n"
  shows "match_angle (s @ t) = Some n"
proof -
  from assms obtain w1 nm w2 rest where s: "s = 0x3C # w1 @ nm @ w2 @ 0x3E # rest"
    and w: "\<forall>c\<in>set w1. is_space c" "ci_name nm" "\<forall>c\<in>set w2. is_space c"
      "n = length w1 + length w2 + 6"
    unfolding match_angle_iff by blast
  from s have "s @ t = 0x3C # w1 @ nm @ w2 @ 0x3E # (rest @ t)" by simp
  with w show ?thesis unfolding match_angle_iff by blast
qed

lemma match_angle_closed:
  assumes tok: "match_angle tok = Some k" and s: "s \<noteq> []" and m: "match_angle s = None"
  shows "match_angle (s @ tok @ t) = None"
proof (rule ccontr)
  assume "match_angle (s @ tok @ t) \<noteq> None"
  then obtain n where "match_angle (s @ tok @ t) = Some n" by auto
  then obtain w1 nm w2 rest where e: "s @ tok @ t = 0x3C # w1 @ nm @ w2 @ 0x3E # rest"
    and w1: "\<forall>c\<in>set w1. is_space c" and nm: "ci_name nm" and w2: "\<forall>c\<in>set w2. is_space c"
    and n: "n = length w1 + length w2 + 6"
    unfolding match_angle_iff by blast
  define M where "M = 0x3C # w1 @ nm @ w2 @ [0x3E]"
  have eM: "s @ tok @ t = M @ rest" using e by (simp add: M_def)
  have lM: "length M = n" using n ci_name_shape [OF nm] by (simp add: M_def)
  from tok obtain tk where tk: "tok = 0x3C # tk"
    using match_angle_head [of tok] by (cases tok) auto
  show False
  proof (cases "length M \<le> length s")
    case True
    from eM have "take (length M) (s @ tok @ t) = M" by simp
    with True have "take (length M) s = M" by simp
    then have "s = M @ drop (length M) s" using append_take_drop_id [of "length M" s] by simp
    then have "s = 0x3C # w1 @ nm @ w2 @ 0x3E # drop (length M) s" by (simp add: M_def)
    with w1 nm w2 n have "match_angle s = Some n" unfolding match_angle_iff by blast
    with m show False by simp
  next
    case False
    then have lt: "length s < length M" by simp
    from eM have "(s @ tok @ t) ! length s = (M @ rest) ! length s" by simp
    with lt tk have "M ! length s = 0x3C" by (simp add: nth_append)
    then have "(w1 @ nm @ w2 @ [0x3E]) ! (length s - 1) = 0x3C"
      using s by (simp add: M_def nth_Cons')
    moreover have "length s - 1 < length (w1 @ nm @ w2 @ [0x3E])"
      using lt s by (cases s) (simp_all add: M_def)
    ultimately have "0x3C \<in> set (w1 @ nm @ w2 @ [0x3E])"
      using nth_mem [of "length s - 1" "w1 @ nm @ w2 @ [0x3E]"] by simp
    then have "0x3C \<in> set w1 \<or> 0x3C \<in> set nm \<or> 0x3C \<in> set w2" by auto
    with w1 w2 ci_name_shape [OF nm] not_space_angle show False by auto
  qed
qed

lemma names_closed:
  "\<forall>a\<in>set bracket_names. 0x5D \<notin> set a" "\<forall>a\<in>set bracket_names. 0x5B \<notin> set a"
  "\<forall>a\<in>set brace_names. 0x7D \<notin> set a" "\<forall>a\<in>set brace_names. 0x7B \<notin> set a"
  by (simp_all add: bracket_names_def brace_names_def u16_def)

text \<open>The texts that the bracket and the brace pattern match as a whole.\<close>

lemma group_tokens:
  assumes "\<forall>a\<in>set alts. cl \<notin> set a"
  shows "match_group op alts cl tok = Some (length tok) \<longleftrightarrow> tok \<in> set (map (\<lambda>a. op # a @ [cl]) alts)"
proof
  assume m: "match_group op alts cl tok = Some (length tok)"
  then obtain r a where t: "tok = op # r" and f: "find (\<lambda>a. starts_with (a @ [cl]) r) alts = Some a"
    and n: "length tok = length a + 2"
    by (auto simp: match_group_def split: list.splits if_splits)
  from f have a: "a \<in> set alts" and s: "starts_with (a @ [cl]) r"
    unfolding find_Some_iff by (auto dest: nth_mem)
  from t n have "length r = length (a @ [cl])" by simp
  with s have "r = a @ [cl]" by (simp add: starts_with_def)
  with t a show "tok \<in> set (map (\<lambda>a. op # a @ [cl]) alts)" by auto
next
  assume "tok \<in> set (map (\<lambda>a. op # a @ [cl]) alts)"
  then obtain a where a: "a \<in> set alts" and t: "tok = op # a @ [cl]" by auto
  have sa: "starts_with (a @ [cl]) (a @ [cl])" by (simp add: starts_with_def)
  then obtain b where f: "find (\<lambda>b. starts_with (b @ [cl]) (a @ [cl])) alts = Some b"
    using a by (cases "find (\<lambda>b. starts_with (b @ [cl]) (a @ [cl])) alts") (auto simp: find_None_iff)
  then have b: "b \<in> set alts" and sb: "starts_with (b @ [cl]) (a @ [cl])"
    unfolding find_Some_iff by (auto dest: nth_mem)
  have "length b = length a"
  proof (rule ccontr)
    assume ne: "length b \<noteq> length a"
    from starts_with_length [OF sb] ne have lt: "length b < length a" by simp
    from starts_with_nth [OF sb, of "length b"] have "cl = (a @ [cl]) ! length b" by simp
    with lt have "cl = a ! length b" by (simp add: nth_append)
    with lt have "cl \<in> set a" using nth_mem [of "length b" a] by simp
    with assms a show False by blast
  qed
  with f t show "match_group op alts cl tok = Some (length tok)"
    by (simp add: match_group_def)
qed

lemma bracket_tokens:
  "match_bracket tok = Some (length tok) \<longleftrightarrow>
     tok \<in> {u16 ''[Name]'', u16 ''[name]'', u16 ''[Your Name/Brand]'', u16 ''[your name]'',
            u16 ''[brand]'', u16 ''[Brand]''}"
  unfolding match_bracket_def group_tokens [OF names_closed(1)]
  by (simp add: bracket_names_def u16_def)

lemma brace_tokens:
  "match_brace tok = Some (length tok) \<longleftrightarrow> tok \<in> {u16 ''{name}'', u16 ''{Name}''}"
  unfolding match_brace_def group_tokens [OF names_closed(3)]
  by (simp add: brace_names_def u16_def)

lemma replace_group_token:
  assumes "DOLLAR \<notin> set fb" and "\<forall>a\<in>set alts. cl \<notin> set a" and "\<forall>a\<in>set alts. op \<notin> set a"
    and "op \<noteq> cl" and "match_group op alts cl tok = Some (length tok)"
  shows "replace_g (match_group op alts cl) (by_string fb) [] (pre @ tok @ post)
         = replace_g (match_group op alts cl) (by_string fb) [] pre @ fb
           @ replace_g (match_group op alts cl) (by_string fb) [] post"
  using assms(1) match_group_empty
proof (rule replace_g_token)
  show "match_group op alts cl tok = Some (length tok)" by (rule assms(5))
  show "\<And>s n. match_group op alts cl s = Some n \<Longrightarrow> 0 < n \<and> n \<le> length s"
    by (rule match_group_bounded)
  show "\<And>s n t. match_group op alts cl s = Some n \<Longrightarrow> match_group op alts cl (s @ t) = Some n"
    using assms(2) by (rule match_group_extend)
  show "\<And>s t. s \<noteq> [] \<Longrightarrow> match_group op alts cl s = None
      \<Longrightarrow> match_group op alts cl (s @ tok @ t) = None"
    using assms(3,4,5) by (rule match_group_closed)
qed

lemma replace_angle_token:
  assumes "DOLLAR \<notin> set fb" and "match_angle tok = Some (length tok)"
  shows "replace_g match_angle (by_string fb) [] (pre @ tok @ post)
         = replace_g match_angle (by_string fb) [] pre @ fb
           @ replace_g match_angle (by_string fb) [] post"
  using assms(1) match_angle_empty
proof (rule replace_g_token)
  show "match_angle tok = Some (length tok)" by (rule assms(2))
  show "\<And>s n. match_angle s = Some n \<Longrightarrow> 0 < n \<and> n \<le> length s"
    by (rule match_angle_bounded)
  show "\<And>s n t. match_angle s = Some n \<Longrightarrow> match_angle (s @ t) = Some n"
    by (rule match_angle_extend)
  show "\<And>s t. s \<noteq> [] \<Longrightarrow> match_angle s = None \<Longrightarrow> match_angle (s @ tok @ t) = None"
    using assms(2) by (rule match_angle_closed)
qed

text \<open>A segment of the text at which the scan does something known.\<close>

lemma infix_ofI: "a = u @ x @ v \<Longrightarrow> infix_of x a"
proof -
  assume a: "a = u @ x @ v"
  have "starts_with x (drop (length u) a)" by (simp add: a starts_with_def)
  moreover have "length u \<in> set [0..<Suc (length a)]" by (simp add: a)
  ultimately show ?thesis unfolding infix_of_def list_ex_iff by blast
qed

lemma infix_of_set: "infix_of x a \<Longrightarrow> set x \<subseteq> set a"
proof -
  assume "infix_of x a"
  then obtain i where "starts_with x (drop i a)" unfolding infix_of_def list_ex_iff by blast
  then have "x = take (length x) (drop i a)" by (simp add: starts_with_def)
  then have "set x \<subseteq> set (drop i a)" by (metis set_take_subset)
  then show ?thesis using set_drop_subset [of i a] by blast
qed

lemma replace_g_segment:
  assumes plain: "DOLLAR \<notin> set fb"
    and bounded: "\<And>s n. m s = Some n \<Longrightarrow> 0 < n \<and> n \<le> length s"
    and extend: "\<And>s n t. m s = Some n \<Longrightarrow> m (s @ t) = Some n"
    and closed: "\<And>s t. s \<noteq> [] \<Longrightarrow> m s = None \<Longrightarrow> m (s @ x @ t) = None"
    and seg: "replace_g m (by_string fb) [] (x @ post) = y @ replace_g m (by_string fb) [] post"
    and empty: "m [] = None"
  shows "replace_g m (by_string fb) [] (pre @ x @ post)
         = replace_g m (by_string fb) [] pre @ y @ replace_g m (by_string fb) [] post"
proof (induction pre rule: length_induct)
  case (1 pre)
  let ?R = "replace_g m (by_string fb) []"
  show ?case
  proof (cases pre)
    case Nil
    with seg empty show ?thesis by simp
  next
    case (Cons c r)
    have ih: "length p < length pre \<Longrightarrow> ?R (p @ x @ post) = ?R p @ y @ ?R post" for p
      using 1 by blast
    show ?thesis
    proof (cases "m pre")
      case None
      then have "m (c # r @ x @ post) = None"
        using closed [of pre post] Cons by simp
      with None Cons ih [of r] show ?thesis
        by (simp add: replace_plain_Cons [OF plain] del: replace_g.simps)
    next
      case (Some n)
      with bounded [of pre n] obtain k where n: "n = Suc k" and k: "k \<le> length r"
        using Cons by (cases n) auto
      have "m (c # r @ x @ post) = Some (Suc k)"
        using extend [of pre n "x @ post"] Some n Cons by simp
      moreover have "m (c # r) = Some (Suc k)" using Some n Cons by simp
      moreover have "drop k (r @ x @ post) = drop k r @ x @ post" using k by simp
      ultimately show ?thesis
        using ih [of "drop k r"] Cons by (simp add: replace_plain_Cons [OF plain] del: replace_g.simps)
    qed
  qed
qed

lemma replace_g_skip:
  assumes plain: "DOLLAR \<notin> set fb"
    and inside: "\<And>i t. i < length x \<Longrightarrow> m (drop i x @ t) = None"
  shows "replace_g m (by_string fb) [] (x @ post) = x @ replace_g m (by_string fb) [] post"
  using inside
proof (induction x)
  case Nil
  show ?case by simp
next
  case (Cons c x)
  have "m (c # x @ post) = None" using Cons.prems [of 0 post] by simp
  moreover have "replace_g m (by_string fb) [] (x @ post) = x @ replace_g m (by_string fb) [] post"
  proof (rule Cons.IH)
    fix i t assume "i < length x"
    then show "m (drop i x @ t) = None" using Cons.prems [of "Suc i" t] by simp
  qed
  ultimately show ?case by (simp add: replace_plain_Cons [OF plain] del: replace_g.simps)
qed

lemma take_snoc_prefix:
  assumes "take (Suc (length a)) s = a @ [c]"
  shows "take (length a) s = a"
proof -
  have "take (length a) s = take (length a) (take (Suc (length a)) s)" by (simp add: min_def)
  also have "\<dots> = a" unfolding assms by simp
  finally show ?thesis .
qed

lemma match_group_inside:
  assumes "op \<notin> set x" and "i < length x"
  shows "match_group op alts cl (drop i x @ t) = None"
proof -
  from assms(2) have d: "drop i x = x ! i # drop (Suc i) x" by (simp add: Cons_nth_drop_Suc)
  from assms have "x ! i \<noteq> op" using nth_mem [of i x] by auto
  then show ?thesis unfolding d by (simp add: match_group_def)
qed

lemma match_group_closed_inert:
  assumes cl: "cl \<notin> set x" and inf: "\<forall>a\<in>set alts. \<not> infix_of x a"
    and s: "s \<noteq> []" and m: "match_group op alts cl s = None"
  shows "match_group op alts cl (s @ x @ t) = None"
proof -
  from s obtain c r where cr: "s = c # r" by (cases s) auto
  show ?thesis
  proof (cases "c = op")
    case False
    with cr show ?thesis by (simp add: match_group_def)
  next
    case True
    have "\<not> starts_with (a @ [cl]) (r @ x @ t)" if a: "a \<in> set alts" for a
    proof
      assume e: "starts_with (a @ [cl]) (r @ x @ t)"
      from m cr True have no: "\<not> starts_with (a @ [cl]) r"
        using a by (auto simp: match_group_def find_None_iff)
      have lr: "length r \<le> length a"
      proof (rule ccontr)
        assume "\<not> length r \<le> length a"
        then have "length (a @ [cl]) \<le> length r" by simp
        with e no show False by (blast dest: starts_with_inside)
      qed
      show False
      proof (cases "length a < length r + length x")
        case True
        from starts_with_nth [OF e, of "length a"] have "cl = (r @ x @ t) ! length a" by simp
        also have "\<dots> = (x @ t) ! (length a - length r)" using lr by (simp add: nth_append)
        also have "\<dots> = x ! (length a - length r)"
        proof -
          have "length a - length r < length x" using lr True by arith
          then show ?thesis by (simp add: nth_append)
        qed
        finally have "cl = x ! (length a - length r)" .
        moreover have "length a - length r < length x" using lr True by arith
        ultimately have "cl \<in> set x" using nth_mem [of "length a - length r" x] by simp
        with cl show False by simp
      next
        case False
        then have le: "length r + length x \<le> length a" by simp
        from e have "take (Suc (length a)) (r @ x @ t) = a @ [cl]" by (simp add: starts_with_def)
        then have ta: "take (length a) (r @ x @ t) = a" by (rule take_snoc_prefix)
        define v0 where "v0 = take (length a - length r - length x) t"
        from ta have "a = r @ x @ v0" using le by (simp add: v0_def)
        then have "infix_of x a" by (rule infix_ofI)
        with inf a show False by blast
      qed
    qed
    then have "find (\<lambda>a. starts_with (a @ [cl]) (r @ x @ t)) alts = None"
      by (auto simp: find_None_iff)
    with cr show ?thesis by (simp add: match_group_def)
  qed
qed

lemma replace_group_inert:
  assumes "DOLLAR \<notin> set fb" and "\<forall>a\<in>set alts. cl \<notin> set a"
    and "op \<notin> set x" and "cl \<notin> set x" and "\<forall>a\<in>set alts. \<not> infix_of x a"
  shows "replace_g (match_group op alts cl) (by_string fb) [] (pre @ x @ post)
         = replace_g (match_group op alts cl) (by_string fb) [] pre @ x
           @ replace_g (match_group op alts cl) (by_string fb) [] post"
proof (rule replace_g_segment [OF assms(1)])
  show "\<And>s n. match_group op alts cl s = Some n \<Longrightarrow> 0 < n \<and> n \<le> length s"
    by (rule match_group_bounded)
  show "\<And>s n t. match_group op alts cl s = Some n \<Longrightarrow> match_group op alts cl (s @ t) = Some n"
    using assms(2) by (rule match_group_extend)
  show "\<And>s t. s \<noteq> [] \<Longrightarrow> match_group op alts cl s = None
      \<Longrightarrow> match_group op alts cl (s @ x @ t) = None"
    using assms(4,5) by (rule match_group_closed_inert)
  show "replace_g (match_group op alts cl) (by_string fb) [] (x @ post)
      = x @ replace_g (match_group op alts cl) (by_string fb) [] post"
    using assms(1) match_group_inside [OF assms(3)] by (rule replace_g_skip)
  show "match_group op alts cl [] = None" by (rule match_group_empty)
qed

lemma match_angle_inside:
  assumes "0x3C \<notin> set x" and "i < length x"
  shows "match_angle (drop i x @ t) = None"
proof -
  from assms(2) have d: "drop i x = x ! i # drop (Suc i) x" by (simp add: Cons_nth_drop_Suc)
  from assms(2) have "x ! i \<in> set x" by simp
  with assms(1) have "x ! i \<noteq> 0x3C" by auto
  then show ?thesis using match_angle_head [of "drop i x @ t"] unfolding d
    by (cases "match_angle (x ! i # drop (Suc i) x @ t)") auto
qed

lemma inside_name:
  assumes e: "w1 @ nm @ w2 = u @ x @ v" and w1: "\<forall>c\<in>set w1. is_space c" and w2: "\<forall>c\<in>set w2. is_space c"
    and x: "x \<noteq> []" "\<not> is_space (hd x)" "\<not> is_space (last x)"
  shows "\<exists>u' v'. nm = u' @ x @ v'"
proof -
  from e obtain z where "(w1 = u @ z \<and> z @ nm @ w2 = x @ v) \<or> (w1 @ z = u \<and> nm @ w2 = z @ x @ v)"
    unfolding append_eq_append_conv2 by blast
  then obtain z' where z': "nm @ w2 = (z' @ x) @ v"
  proof
    assume a: "w1 = u @ z \<and> z @ nm @ w2 = x @ v"
    have "z = []"
    proof (rule ccontr)
      assume "z \<noteq> []"
      with a x(1) have "hd x = hd z" by (cases z; cases x) auto
      moreover from \<open>z \<noteq> []\<close> a have "hd z \<in> set w1" by (cases z) auto
      ultimately show False using w1 x(2) by auto
    qed
    with a have "nm @ w2 = ([] @ x) @ v" by simp
    then show ?thesis by (rule that)
  next
    assume "w1 @ z = u \<and> nm @ w2 = z @ x @ v"
    then have "nm @ w2 = (z @ x) @ v" by simp
    then show ?thesis by (rule that)
  qed
  then obtain y where "(nm = (z' @ x) @ y \<and> y @ w2 = v) \<or> (nm @ y = z' @ x \<and> w2 = y @ v)"
    unfolding append_eq_append_conv2 by blast
  then show ?thesis
  proof
    assume "nm = (z' @ x) @ y \<and> y @ w2 = v"
    then have "nm = z' @ x @ y" by simp
    then show ?thesis by blast
  next
    assume b: "nm @ y = z' @ x \<and> w2 = y @ v"
    have "y = []"
    proof (rule ccontr)
      assume "y \<noteq> []"
      then have "last (nm @ y) = last y" by simp
      with b x(1) have "last x = last y" by simp
      moreover from \<open>y \<noteq> []\<close> b have "last y \<in> set w2" by simp
      ultimately show False using w2 x(3) by auto
    qed
    with b have "nm = z' @ x @ []" by simp
    then show ?thesis by blast
  qed
qed

lemma ci_name_fold: "ci_name nm \<Longrightarrow> map fold_case nm = u16 ''name''"
  by (auto simp: ci_name_def fold_case_def u16_def split: list.splits)

lemma match_angle_closed_inert:
  assumes gt: "0x3E \<notin> set x" and x: "x \<noteq> []" "\<not> is_space (hd x)" "\<not> is_space (last x)"
    and inf: "\<not> infix_of (map fold_case x) (u16 ''name'')"
    and s: "s \<noteq> []" and m: "match_angle s = None"
  shows "match_angle (s @ x @ t) = None"
proof (rule ccontr)
  assume "match_angle (s @ x @ t) \<noteq> None"
  then obtain n where "match_angle (s @ x @ t) = Some n" by auto
  then obtain w1 nm w2 rest where e: "s @ x @ t = 0x3C # w1 @ nm @ w2 @ 0x3E # rest"
    and w1: "\<forall>c\<in>set w1. is_space c" and nm: "ci_name nm" and w2: "\<forall>c\<in>set w2. is_space c"
    and n: "n = length w1 + length w2 + 6"
    unfolding match_angle_iff by blast
  define inner where "inner = w1 @ nm @ w2"
  from s obtain s' where s': "s = 0x3C # s'" using e by (cases s) auto
  with e have e': "s' @ x @ t = inner @ 0x3E # rest" by (simp add: inner_def)
  show False
  proof (cases "length inner < length s'")
    case True
    from e' have "take (Suc (length inner)) (s' @ x @ t) = inner @ [0x3E]" by simp
    with True have "take (Suc (length inner)) s' = inner @ [0x3E]" by simp
    then have "s' = (inner @ [0x3E]) @ drop (Suc (length inner)) s'"
      using append_take_drop_id [of "Suc (length inner)" s'] by simp
    then have "s = 0x3C # w1 @ nm @ w2 @ 0x3E # drop (Suc (length inner)) s'"
      by (simp add: s' inner_def)
    from match_angle_bw [OF this w1 nm w2] have "match_angle s = Some (length w1 + length w2 + 6)" .
    with m show False by simp
  next
    case False
    then have ls: "length s' \<le> length inner" by simp
    show False
    proof (cases "length inner < length s' + length x")
      case True
      from e' have "(s' @ x @ t) ! length inner = (inner @ 0x3E # rest) ! length inner" by simp
      moreover have li: "length inner - length s' < length x" using ls True by arith
      ultimately have "x ! (length inner - length s') = 0x3E" using ls by (simp add: nth_append)
      then have "0x3E \<in> set x" using li nth_mem [of "length inner - length s'" x] by auto
      with gt show False by simp
    next
      case False
      then have le: "length s' + length x \<le> length inner" by simp
      define v0 where "v0 = take (length inner - length s' - length x) t"
      from e' have "take (length inner) (s' @ x @ t) = inner" by simp
      then have "inner = s' @ x @ v0"
        using le by (simp add: v0_def)
      then have "w1 @ nm @ w2 = s' @ x @ v0"
        by (simp only: inner_def)
      from inside_name [OF this w1 w2 x] obtain u' v' where "nm = u' @ x @ v'" by blast
      then have "map fold_case nm = map fold_case u' @ map fold_case x @ map fold_case v'" by simp
      then have "infix_of (map fold_case x) (map fold_case nm)" by (rule infix_ofI)
      with inf ci_name_fold [OF nm] show False by simp
    qed
  qed
qed

lemma replace_angle_inert:
  assumes "DOLLAR \<notin> set fb" and "0x3C \<notin> set x" and "0x3E \<notin> set x"
    and "x \<noteq> []" "\<not> is_space (hd x)" "\<not> is_space (last x)"
    and "\<not> infix_of (map fold_case x) (u16 ''name'')"
  shows "replace_g match_angle (by_string fb) [] (pre @ x @ post)
         = replace_g match_angle (by_string fb) [] pre @ x
           @ replace_g match_angle (by_string fb) [] post"
proof (rule replace_g_segment [OF assms(1)])
  show "\<And>s n. match_angle s = Some n \<Longrightarrow> 0 < n \<and> n \<le> length s"
    by (rule match_angle_bounded)
  show "\<And>s n t. match_angle s = Some n \<Longrightarrow> match_angle (s @ t) = Some n"
    by (rule match_angle_extend)
  show "\<And>s t. s \<noteq> [] \<Longrightarrow> match_angle s = None \<Longrightarrow> match_angle (s @ x @ t) = None"
    using assms(3-7) by (rule match_angle_closed_inert)
  show "replace_g match_angle (by_string fb) [] (x @ post)
      = x @ replace_g match_angle (by_string fb) [] post"
    using assms(1) match_angle_inside [OF assms(2)] by (rule replace_g_skip)
  show "match_angle [] = None" by (rule match_angle_empty)
qed

lemma dropWhile_before:
  "y \<noteq> [] \<Longrightarrow> \<not> P (hd y) \<Longrightarrow> dropWhile P (pre @ y @ post) = dropWhile P pre @ y @ post"
  by (induction pre) (auto simp: dropWhile_start)

lemma trim_around:
  assumes "y \<noteq> []" and "\<not> is_space (hd y)" and "\<not> is_space (last y)"
  shows "trim (pre @ y @ post) = dropWhile is_space pre @ y @ rev (dropWhile is_space (rev post))"
proof -
  have a: "dropWhile is_space (pre @ y @ post) = dropWhile is_space pre @ y @ post"
    using assms(1,2) by (rule dropWhile_before)
  have "rev y \<noteq> []" "\<not> is_space (hd (rev y))" using assms(1,3) by (simp_all add: hd_rev)
  then have "dropWhile is_space (rev post @ rev y @ rev (dropWhile is_space pre))
      = dropWhile is_space (rev post) @ rev y @ rev (dropWhile is_space pre)"
    by (rule dropWhile_before)
  then show ?thesis by (simp add: trim_def a)
qed

lemma trim_decomp: "\<exists>w1 w2. s = w1 @ trim s @ w2"
proof -
  have "s = takeWhile is_space s @ dropWhile is_space s" by simp
  moreover have "rev (dropWhile is_space s)
      = takeWhile is_space (rev (dropWhile is_space s)) @ dropWhile is_space (rev (dropWhile is_space s))"
    by simp
  then have "dropWhile is_space s = trim s @ rev (takeWhile is_space (rev (dropWhile is_space s)))"
    unfolding trim_def by (metis rev_append rev_rev_ident)
  ultimately have "s = takeWhile is_space s @ trim s @ rev (takeWhile is_space (rev (dropWhile is_space s)))"
    by simp
  then show ?thesis by blast
qed

lemma has_match_behind: "has_match m t \<Longrightarrow> has_match m (p @ t)"
  by (induction p) simp_all

lemma has_match_front:
  assumes "\<And>s n t. m s = Some n \<Longrightarrow> m (s @ t) = Some n"
  shows "has_match m p \<Longrightarrow> has_match m (p @ q)"
proof (induction p)
  case Nil
  then obtain n where "m [] = Some n" by auto
  from assms [OF this, of q] have "m q \<noteq> None" by simp
  then show ?case by (cases q) auto
next
  case (Cons c r)
  show ?case
  proof (cases "m (c # r)")
    case None
    with Cons show ?thesis by auto
  next
    case (Some n)
    from assms [OF this, of q] show ?thesis by simp
  qed
qed

lemma no_match_trim:
  assumes "\<And>s n t. m s = Some n \<Longrightarrow> m (s @ t) = Some n" and "\<not> has_match m s"
  shows "\<not> has_match m (trim s)"
proof
  assume h: "has_match m (trim s)"
  obtain w1 w2 where s: "s = w1 @ trim s @ w2" using trim_decomp by blast
  from h have "has_match m (trim s @ w2)" using has_match_front [of m "trim s" w2] assms(1) by blast
  then have "has_match m (w1 @ trim s @ w2)" by (rule has_match_behind)
  with s assms(2) show False by simp
qed

lemma names_open:
  "\<forall>a\<in>set bracket_names. 0x7B \<notin> set a \<and> 0x3C \<notin> set a"
  "\<forall>a\<in>set brace_names. 0x3C \<notin> set a"
  by (simp_all add: bracket_names_def brace_names_def u16_def)

lemma group_token_shape:
  assumes "\<forall>a\<in>set alts. cl \<notin> set a" and "match_group op alts cl tok = Some (length tok)"
  shows "\<exists>a\<in>set alts. tok = op # a @ [cl]"
  using assms(2) unfolding group_tokens [OF assms(1)] by auto

lemma angle_token_shape:
  assumes "match_angle tok = Some (length tok)"
  shows "\<exists>w1 nm w2. tok = 0x3C # w1 @ nm @ w2 @ [0x3E] \<and> (\<forall>c\<in>set w1. is_space c) \<and> ci_name nm
           \<and> (\<forall>c\<in>set w2. is_space c)"
proof -
  from assms obtain w1 nm w2 rest where t: "tok = 0x3C # w1 @ nm @ w2 @ 0x3E # rest"
    and w: "\<forall>c\<in>set w1. is_space c" "ci_name nm" "\<forall>c\<in>set w2. is_space c"
    and n: "length tok = length w1 + length w2 + 6"
    unfolding match_angle_iff by blast
  from ci_name_shape [OF w(2)] have "length nm = 4" by simp
  with t n have "rest = []" by simp
  with t w show ?thesis by blast
qed

lemma not_infix_by_char: "c \<in> set x \<Longrightarrow> \<forall>a\<in>set alts. c \<notin> set a \<Longrightarrow> \<forall>a\<in>set alts. \<not> infix_of x a"
  using infix_of_set by blast

lemma not_space_marks:
  "\<not> is_space 0x5B" "\<not> is_space 0x5D" "\<not> is_space 0x7B" "\<not> is_space 0x7D"
  by (simp_all add: is_space_def)

lemma plain_nameD:
  assumes "plain_name fb"
  shows "fb \<noteq> []" "\<not> is_space (hd fb)" "\<not> is_space (last fb)" "DOLLAR \<notin> set fb"
    "0x5B \<notin> set fb" "0x5D \<notin> set fb" "0x7B \<notin> set fb" "0x7D \<notin> set fb" "0x3C \<notin> set fb" "0x3E \<notin> set fb"
    "\<forall>a\<in>set bracket_names. \<not> infix_of fb a" "\<forall>a\<in>set brace_names. \<not> infix_of fb a"
    "\<not> infix_of (map fold_case fb) (u16 ''name'')"
  using assms by (auto simp: plain_name_def list_all_iff)

lemma substituted_equal:
  assumes "replace_angle fb (replace_brace fb (replace_bracket fb (trim msg)))
         = replace_angle fb (replace_brace fb (replace_bracket fb (trim msg')))"
    and "fb = fallback_of name username"
  shows "sanitizeMessage msg name username = sanitizeMessage msg' name username"
  using assms by (simp add: sanitizeMessage_def Let_def)

lemma placeholder_as_name:
  assumes tok: "is_placeholder tok" and pn: "plain_name fb" and fb: "fb = fallback_of name username"
  shows "sanitizeMessage (pre @ tok @ post) name username = sanitizeMessage (pre @ fb @ post) name username"
proof -
  note p = plain_nameD [OF pn]
  define p' where "p' = dropWhile is_space pre"
  define q' where "q' = rev (dropWhile is_space (rev post))"
  let ?A = "replace_bracket fb" and ?B = "replace_brace fb" and ?C = "replace_angle fb"
  have tf: "trim (pre @ fb @ post) = p' @ fb @ q'"
    unfolding p'_def q'_def using p(1-3) by (rule trim_around)
  have A_fb: "?A (u @ fb @ v) = ?A u @ fb @ ?A v" for u v
    unfolding replace_bracket_def match_bracket_def
    using p(4) names_closed(1) p(5,6,11) by (rule replace_group_inert)
  have B_fb: "?B (u @ fb @ v) = ?B u @ fb @ ?B v" for u v
    unfolding replace_brace_def match_brace_def
    using p(4) names_closed(3) p(7,8,12) by (rule replace_group_inert)
  have C_fb: "?C (u @ fb @ v) = ?C u @ fb @ ?C v" for u v
    unfolding replace_angle_def
    using p(4,9,10,1,2,3,13) by (rule replace_angle_inert)
  have rhs: "?C (?B (?A (trim (pre @ fb @ post)))) = ?C (?B (?A p')) @ fb @ ?C (?B (?A q'))"
    by (simp only: tf A_fb B_fb C_fb)
  from tok consider (bracket) "match_bracket tok = Some (length tok)"
    | (brace) "match_brace tok = Some (length tok)"
    | (angle) "match_angle tok = Some (length tok)"
    unfolding is_placeholder_def by blast
  then have "?C (?B (?A (trim (pre @ tok @ post)))) = ?C (?B (?A p')) @ fb @ ?C (?B (?A q'))"
  proof cases
    case bracket
    then obtain a where t: "tok = 0x5B # a @ [0x5D]"
      using group_token_shape [OF names_closed(1)] unfolding match_bracket_def by blast
    have "trim (pre @ tok @ post) = p' @ tok @ q'"
      unfolding p'_def q'_def by (rule trim_around) (simp_all add: t not_space_marks)
    moreover have "?A (p' @ tok @ q') = ?A p' @ fb @ ?A q'"
      unfolding replace_bracket_def match_bracket_def
      using p(4) names_closed(1,2) bracket [unfolded match_bracket_def]
      by (intro replace_group_token) simp_all
    ultimately show ?thesis by (simp only: B_fb C_fb)
  next
    case brace
    then obtain a where t: "tok = 0x7B # a @ [0x7D]" and a: "a \<in> set brace_names"
      using group_token_shape [OF names_closed(3)] unfolding match_brace_def by blast
    have tt: "trim (pre @ tok @ post) = p' @ tok @ q'"
      unfolding p'_def q'_def by (rule trim_around) (simp_all add: t not_space_marks)
    have in_tok: "0x5B \<notin> set tok" "0x5D \<notin> set tok" "0x7B \<in> set tok"
      using a by (auto simp: t brace_names_def u16_def)
    have "\<forall>b\<in>set bracket_names. \<not> infix_of tok b"
      using in_tok(3) names_open(1) by (intro not_infix_by_char [of "0x7B"]) auto
    then have "?A (p' @ tok @ q') = ?A p' @ tok @ ?A q'"
      unfolding replace_bracket_def match_bracket_def
      using p(4) names_closed(1) in_tok(1,2) by (intro replace_group_inert) simp_all
    moreover have "?B (?A p' @ tok @ ?A q') = ?B (?A p') @ fb @ ?B (?A q')"
      unfolding replace_brace_def match_brace_def
      using p(4) names_closed(3,4) brace [unfolded match_brace_def]
      by (intro replace_group_token) simp_all
    ultimately show ?thesis by (simp only: tt C_fb)
  next
    case angle
    then obtain w1 nm w2 where t: "tok = 0x3C # w1 @ nm @ w2 @ [0x3E]"
      and w: "\<forall>c\<in>set w1. is_space c" "ci_name nm" "\<forall>c\<in>set w2. is_space c"
      using angle_token_shape by blast
    have tt: "trim (pre @ tok @ post) = p' @ tok @ q'"
      unfolding p'_def q'_def by (rule trim_around) (simp_all add: t not_space_angle)
    have nmc: "0x5B \<notin> set nm" "0x5D \<notin> set nm" "0x7B \<notin> set nm" "0x7D \<notin> set nm"
      using w(2) by (auto simp: ci_name_def split: list.splits)
    have in_tok: "0x5B \<notin> set tok" "0x5D \<notin> set tok" "0x7B \<notin> set tok" "0x7D \<notin> set tok" "0x3C \<in> set tok"
      using w(1,3) nmc not_space_marks by (auto simp: t)
    have "\<forall>b\<in>set bracket_names. \<not> infix_of tok b"
      using in_tok(5) names_open(1) by (intro not_infix_by_char [of "0x3C"]) auto
    then have a1: "?A (p' @ tok @ q') = ?A p' @ tok @ ?A q'"
      unfolding replace_bracket_def match_bracket_def
      using p(4) names_closed(1) in_tok(1,2) by (intro replace_group_inert) simp_all
    have "\<forall>b\<in>set brace_names. \<not> infix_of tok b"
      using in_tok(5) names_open(2) by (intro not_infix_by_char [of "0x3C"]) auto
    then have b1: "?B (u @ tok @ v) = ?B u @ tok @ ?B v" for u v
      unfolding replace_brace_def match_brace_def
      using p(4) names_closed(3) in_tok(3,4) by (intro replace_group_inert) simp_all
    have c1: "?C (u @ tok @ v) = ?C u @ fb @ ?C v" for u v
      unfolding replace_angle_def using p(4) angle by (rule replace_angle_token)
    show ?thesis by (simp only: tt a1 b1 c1)
  qed
  with rhs have "?C (?B (?A (trim (pre @ tok @ post)))) = ?C (?B (?A (trim (pre @ fb @ post))))"
    by simp
  then show ?thesis using fb by (rule substituted_equal)
qed

lemma no_placeholder_no_name:
  assumes "\<not> has_match match_bracket msg" and "\<not> has_match match_brace msg"
    and "\<not> has_match match_angle msg"
  shows "sanitizeMessage msg name username = sanitizeMessage msg name' username'"
proof -
  have a: "\<not> has_match match_bracket (trim msg)"
    using assms(1) match_group_extend [OF names_closed(1)] unfolding match_bracket_def
    by (intro no_match_trim) auto
  have b: "\<not> has_match match_brace (trim msg)"
    using assms(2) match_group_extend [OF names_closed(3)] unfolding match_brace_def
    by (intro no_match_trim) auto
  have c: "\<not> has_match match_angle (trim msg)"
    using assms(3) match_angle_extend by (intro no_match_trim) auto
  have "replace_angle fb (replace_brace fb (replace_bracket fb (trim msg))) = trim msg" for fb
    using a b c by (simp add: replace_bracket_def replace_brace_def replace_angle_def no_match_id)
  then show ?thesis by (simp add: sanitizeMessage_def Let_def)
qed

lemmas token_eval =
  fallback_of_def match_bracket_def match_brace_def match_group_def match_angle_def
  bracket_names_def brace_names_def starts_with_def ci_name_def is_space_def u16_def Let_def

text \<open>The texts that the angle pattern matches as a whole.\<close>

lemma angle_tokens:
  "match_angle tok = Some (length tok) \<longleftrightarrow>
     (\<exists>w1 nm w2. tok = 0x3C # w1 @ nm @ w2 @ [0x3E] \<and> (\<forall>c\<in>set w1. is_space c) \<and> ci_name nm
        \<and> (\<forall>c\<in>set w2. is_space c))"
proof
  assume "match_angle tok = Some (length tok)"
  then show "\<exists>w1 nm w2. tok = 0x3C # w1 @ nm @ w2 @ [0x3E] \<and> (\<forall>c\<in>set w1. is_space c) \<and> ci_name nm
        \<and> (\<forall>c\<in>set w2. is_space c)"
    by (rule angle_token_shape)
next
  assume "\<exists>w1 nm w2. tok = 0x3C # w1 @ nm @ w2 @ [0x3E] \<and> (\<forall>c\<in>set w1. is_space c) \<and> ci_name nm
        \<and> (\<forall>c\<in>set w2. is_space c)"
  then obtain w1 nm w2 where t: "tok = 0x3C # w1 @ nm @ w2 @ 0x3E # []"
    and w: "\<forall>c\<in>set w1. is_space c" "ci_name nm" "\<forall>c\<in>set w2. is_space c"
    by auto
  from match_angle_bw [OF t w] ci_name_shape [OF w(2)] show "match_angle tok = Some (length tok)"
    by (simp add: t)
qed

text \<open>
  C4. For every input text and every placeholder in it, that is every occurrence of
  \<open>[Name]\<close>, \<open>[name]\<close>, \<open>[Your Name/Brand]\<close>, \<open>[your name]\<close>, \<open>[brand]\<close>, \<open>[Brand]\<close>,
  \<open>{name}\<close>, \<open>{Name}\<close>, or of \<open><name>\<close> in any mix of cases with optional white space inside
  the angle brackets: the sanitizer returns what it returns for the text with the fallback
  (the display name, or the handle when the name is empty) written in the place of the
  placeholder, provided the fallback is a plain name. The inserted name goes through the
  later passes like the rest of the text; where the text with the name in place is tidy,
  it is the result. No other spelling is substituted: for a text in which no placeholder
  occurs the result does not depend on the name and the handle.
\<close>

theorem placeholder_replaced:
  "(is_placeholder tok \<and> plain_name (fallback_of name username) \<longrightarrow>
      sanitizeMessage (pre @ tok @ post) name username
      = sanitizeMessage (pre @ fallback_of name username @ post) name username)
   \<and> (is_placeholder tok \<and> plain_name (fallback_of name username)
        \<and> tidy (pre @ fallback_of name username @ post) \<longrightarrow>
      sanitizeMessage (pre @ tok @ post) name username = pre @ fallback_of name username @ post)
   \<and> (\<not> has_match match_bracket msg \<and> \<not> has_match match_brace msg \<and> \<not> has_match match_angle msg \<longrightarrow>
      sanitizeMessage msg name username = sanitizeMessage msg name' username')"
  using placeholder_as_name [of tok "fallback_of name username" name username pre post]
    sanitizeMessage_fixed [of "pre @ fallback_of name username @ post" name username]
    no_placeholder_no_name [of msg name username name' username']
  by auto

lemmas name_eval = plain_name_def infix_of_def fold_case_def upt_rec

theorem placeholder_replaced_witness:
  "is_placeholder (u16 ''[Your Name/Brand]'')
   \<and> plain_name (fallback_of (u16 ''Bob'') (u16 ''bob''))
   \<and> tidy (u16 ''Hi '' @ fallback_of (u16 ''Bob'') (u16 ''bob'') @ u16 '', ok?'')
   \<and> sanitizeMessage (u16 ''Hi '' @ u16 ''[Your Name/Brand]'' @ u16 '', ok?'') (u16 ''Bob'') (u16 ''bob'')
       = u16 ''Hi Bob, ok?''
   \<and> is_placeholder (u16 ''< NaMe >'')
   \<and> plain_name (fallback_of [] (u16 ''john.doe''))
   \<and> sanitizeMessage (u16 ''Hi '' @ u16 ''< NaMe >'' @ u16 '', ok?'') [] (u16 ''john.doe'')
       = u16 ''Hi john.doe, ok?''
   \<and> \<not> has_match match_bracket (u16 ''Hi [NAME]'')
   \<and> \<not> has_match match_brace (u16 ''Hi [NAME]'')
   \<and> \<not> has_match match_angle (u16 ''Hi [NAME]'')
   \<and> sanitizeMessage (u16 ''Hi [NAME]'') (u16 ''Bob'') (u16 ''bob'')
       = sanitizeMessage (u16 ''Hi [NAME]'') (u16 ''Alice'') (u16 ''alice'')"
proof -
  have t: "is_placeholder (u16 ''[Your Name/Brand]'')" "is_placeholder (u16 ''< NaMe >'')"
    by (simp_all add: is_placeholder_def token_eval)
  have n: "plain_name (fallback_of (u16 ''Bob'') (u16 ''bob''))"
    "plain_name (fallback_of [] (u16 ''john.doe''))"
    by (simp_all add: name_eval token_eval)
  have h: "\<not> has_match match_bracket (u16 ''Hi [NAME]'')" "\<not> has_match match_brace (u16 ''Hi [NAME]'')"
    "\<not> has_match match_angle (u16 ''Hi [NAME]'')"
    by (simp_all add: token_eval)
  have d: "tidy (u16 ''Hi '' @ fallback_of (u16 ''Bob'') (u16 ''bob'') @ u16 '', ok?'')"
    by (simp add: tidy_def markup_chars_def apart_def trim_def token_eval)
  from placeholder_replaced [of "u16 ''[Your Name/Brand]''" "u16 ''Bob''" "u16 ''bob''" "u16 ''Hi ''" "u16 '', ok?''"] t n d
  have "sanitizeMessage (u16 ''Hi '' @ u16 ''[Your Name/Brand]'' @ u16 '', ok?'') (u16 ''Bob'') (u16 ''bob'')
      = u16 ''Hi '' @ fallback_of (u16 ''Bob'') (u16 ''bob'') @ u16 '', ok?''"
    by blast
  also have "\<dots> = u16 ''Hi Bob, ok?''" by (simp add: fallback_of_def u16_def)
  finally have e1: "sanitizeMessage (u16 ''Hi '' @ u16 ''[Your Name/Brand]'' @ u16 '', ok?'') (u16 ''Bob'') (u16 ''bob'')
      = u16 ''Hi Bob, ok?''" .
  from placeholder_replaced [of "u16 ''< NaMe >''" "[]" "u16 ''john.doe''" "u16 ''Hi ''" "u16 '', ok?''"] t n
  have "sanitizeMessage (u16 ''Hi '' @ u16 ''< NaMe >'' @ u16 '', ok?'') [] (u16 ''john.doe'')
      = sanitizeMessage (u16 ''Hi '' @ fallback_of [] (u16 ''john.doe'') @ u16 '', ok?'') [] (u16 ''john.doe'')"
    by blast
  also have "\<dots> = u16 ''Hi john.doe, ok?''" by (simp add: sanitize_eval)
  finally have e2: "sanitizeMessage (u16 ''Hi '' @ u16 ''< NaMe >'' @ u16 '', ok?'') [] (u16 ''john.doe'')
      = u16 ''Hi john.doe, ok?''" .
  from placeholder_replaced [of _ "u16 ''Bob''" "u16 ''bob''" _ _ "u16 ''Hi [NAME]''" "u16 ''Alice''" "u16 ''alice''"] h
  have e3: "sanitizeMessage (u16 ''Hi [NAME]'') (u16 ''Bob'') (u16 ''bob'')
       = sanitizeMessage (u16 ''Hi [NAME]'') (u16 ''Alice'') (u16 ''alice'')"
    by blast
  from t n d h e1 e2 e3 show ?thesis by blast
qed

text \<open>
  The upper-case spelling \<open>[NAME]\<close> is no alternative of the pattern and only loses its
  brackets; and the handle \<open>john_doe\<close>, inserted for \<open>[Name]\<close>, loses its underscore in the
  stripping pass that follows.
\<close>

theorem placeholders_not_replaced:
  "sanitizeMessage (u16 ''Hi [NAME]'') (u16 ''Bob'') (u16 ''bob'') = u16 ''Hi NAME''
   \<and> sanitizeMessage (u16 ''Hi [NAME]'') (u16 ''Bob'') (u16 ''bob'') \<noteq> u16 ''Hi Bob''
   \<and> sanitizeMessage (u16 ''Hi [Name]'') [] (u16 ''john_doe'') = u16 ''Hi johndoe''
   \<and> sanitizeMessage (u16 ''Hi [Name]'') [] (u16 ''john_doe'') \<noteq> u16 ''Hi john_doe''"
  by (simp add: sanitize_eval)

section \<open>Properties of the job\<close>

subsection \<open>One dispatch\<close>

lemmas step_defs = await_def set_step_def rotate_proxy_def on_error_def on_sent_def

lemma dispatch_counters:
  "sent (job (dispatch w k sp pl i u l)) = sent (job l) + (if thrown w k sp i u = None then 1 else 0)"
  "failed (job (dispatch w k sp pl i u l)) = failed (job l) + (if thrown w k sp i u = None then 0 else 1)"
  "lastError (job (dispatch w k sp pl i u l)) = thrown w k sp i u"
  by (auto simp: dispatch_def thrown_def step_defs Let_def split: sum.splits option.splits)

lemma dispatch_frame:
  "total_count (job (dispatch w k sp pl i u l)) = total_count (job l)"
  "index (job (dispatch w k sp pl i u l)) = index (job l)"
  "running (job (dispatch w k sp pl i u l)) = running (job l)"
  "nextSendAt (job (dispatch w k sp pl i u l)) = nextSendAt (job l)"
  "currentUsername (job (dispatch w k sp pl i u l)) = currentUsername (job l)"
  "now (dispatch w k sp pl i u l) = now l"
  by (auto simp: dispatch_def step_defs Let_def split: sum.splits option.splits)

lemma dispatch_step:
  "lastStep (job (dispatch w k sp pl i u l)) \<in> Some ` set step_names"
  by (auto simp: dispatch_def step_defs step_names_def Let_def split: sum.splits option.splits)

lemma dispatch_proxy:
  "proxyUrls (dispatch w k sp pl i u l)
     = proxyUrls l @ [if pl = [] then None else Some (pl ! (proxyIndex l mod length pl))]"
  "proxyIndex (dispatch w k sp pl i u l) = (if pl = [] then proxyIndex l else proxyIndex l + 1)"
  by (auto simp: dispatch_def step_defs Let_def split: sum.splits option.splits)

lemma dispatch_seen:
  "\<exists>new. seen (dispatch w k sp pl i u l) = seen l @ new \<and> new \<noteq> []
     \<and> (\<forall>s\<in>set new. running s = running (job l) \<and> sent s = sent (job l) \<and> failed s = failed (job l)
            \<and> nextSendAt s = nextSendAt (job l) \<and> index s = index (job l)
            \<and> total_count s = total_count (job l)
            \<and> lastStep s \<in> Some ` set (tl step_names))"
  by (auto simp: dispatch_def step_defs step_names_def Let_def split: sum.splits option.splits)

subsection \<open>The loops\<close>

lemma wait_loop_frame:
  "job (wait_loop target l) = job l"
  "proxyUrls (wait_loop target l) = proxyUrls l"
  "proxyIndex (wait_loop target l) = proxyIndex l"
  by (induction target l rule: wait_loop.induct; subst wait_loop.simps; simp add: await_def)+

lemma wait_loop_seen:
  "\<exists>k. seen (wait_loop target l) = seen l @ replicate k (job l)"
proof (induction target l rule: wait_loop.induct)
  case (1 target l)
  show ?case
  proof (cases "now l < target \<and> running (job l)")
    case True
    with 1 obtain k where "seen (wait_loop target ((await l)\<lparr>now := now l + 1000\<rparr>))
        = seen ((await l)\<lparr>now := now l + 1000\<rparr>) @ replicate k (job ((await l)\<lparr>now := now l + 1000\<rparr>))"
      by blast
    then have "seen (wait_loop target l) = seen l @ replicate (Suc k) (job l)"
      using True wait_loop.simps [of target l] by (simp add: await_def)
    then show ?thesis by blast
  next
    case False
    then have "seen (wait_loop target l) = seen l @ replicate 0 (job l)"
      using wait_loop.simps [of target l] by auto
    then show ?thesis by blast
  qed
qed

lemma for_loop_rule:
  assumes "I i l" and "i \<le> n"
    and "\<And>j l. j < n \<Longrightarrow> I j l \<Longrightarrow> running (job l) \<and> I (Suc j) (body j l)"
  shows "I n (for_loop body n i l)"
  using assms
proof (induction body n i l rule: for_loop.induct)
  case (1 body n i l)
  show ?case
  proof (cases "i < n")
    case True
    from "1.prems"(3) [OF True "1.prems"(1)] have r: "running (job l)" and s: "I (Suc i) (body i l)"
      by auto
    have "I n (for_loop body n (Suc i) (body i l))"
      using "1.IH" [OF True _ s] True r "1.prems"(3) by simp
    moreover have "for_loop body n i l = for_loop body n (Suc i) (body i l)"
      using True r for_loop.simps [of body n i l] by simp
    ultimately show ?thesis by simp
  next
    case False
    then have "for_loop body n i l = l" using for_loop.simps [of body n i l] by simp
    moreover from False "1.prems"(2) have "i = n" by simp
    ultimately show ?thesis using "1.prems"(1) by simp
  qed
qed

lemma count_split:
  "length (filter P [0..<i]) + length (filter (\<lambda>j. \<not> P j) [0..<i]) = i"
  using sum_length_filter_compl [of P "[0..<i]"] by simp

lemma iteration_inv:
  assumes i: "i < length us" and inv: "loop_inv w k sp pl us i l"
  shows "loop_inv w k sp pl us (Suc i) (iteration w k sp pl us i l)"
proof -
  define l1 where "l1 = l\<lparr>job := (job l)\<lparr>index := i, currentUsername := Some (us ! i)\<rparr>\<rparr>"
  define d where "d = dispatch w k sp pl i (us ! i) l1"
  define l3 where "l3 = d\<lparr>now := now d + int (round_trip w i)\<rparr>"
  define target where "target = now l3 + waitSec w i * 1000"
  define l4 where "l4 = l3\<lparr>job := (job l3)\<lparr>nextSendAt := Some target\<rparr>\<rparr>"
  have it: "iteration w k sp pl us i l = (if int i < int (length us) - 1 then wait_loop target l4 else l3)"
    by (simp add: iteration_def Let_def l1_def d_def l3_def target_def l4_def)
  from inv have run: "running (job l)" and tot: "total_count (job l) = length us"
    and se: "sent (job l) = length (filter (delivered w k sp us) [0..<i])"
    and fa: "failed (job l) = length (filter (\<lambda>j. \<not> delivered w k sp us j) [0..<i])"
    and ns: "nextSendAt (job l) = None \<longleftrightarrow> i = 0"
    and pu: "proxyUrls l = map (assigned pl) [0..<i]"
    and pi: "proxyIndex l = (if pl = [] then 0 else i)"
    and gs: "\<forall>s\<in>set (seen l). good s"
    using i by (simp_all add: loop_inv_def)
  have sum: "sent (job l) + failed (job l) = i"
    unfolding se fa by (rule count_split)
  have j3: "running (job l3)" "total_count (job l3) = length us" "index (job l3) = i"
    "nextSendAt (job l3) = nextSendAt (job l)"
    "sent (job l3) = length (filter (delivered w k sp us) [0..<Suc i])"
    "failed (job l3) = length (filter (\<lambda>j. \<not> delivered w k sp us j) [0..<Suc i])"
    "lastStep (job l3) \<in> Some ` set step_names"
    using run tot se fa dispatch_step [of w k sp pl i "us ! i" l1]
    by (simp_all add: l3_def d_def dispatch_frame dispatch_counters l1_def delivered_def)
  have p3: "proxyUrls l3 = map (assigned pl) [0..<Suc i]" "proxyIndex l3 = (if pl = [] then 0 else Suc i)"
    using pu pi by (simp_all add: l3_def d_def dispatch_proxy l1_def assigned_def)
  obtain new where new: "seen d = seen l1 @ new"
    and newp: "\<forall>s\<in>set new. running s = running (job l1) \<and> sent s = sent (job l1)
       \<and> failed s = failed (job l1) \<and> nextSendAt s = nextSendAt (job l1) \<and> index s = index (job l1)
       \<and> total_count s = total_count (job l1) \<and> lastStep s \<in> Some ` set (tl step_names)"
    using dispatch_seen [of w k sp pl i "us ! i" l1] unfolding d_def by blast
  have "\<forall>s\<in>set new. good s"
  proof
    fix s assume "s \<in> set new"
    with newp have "running s" "sent s + failed s = i" "nextSendAt s = nextSendAt (job l)"
      "lastStep s \<in> Some ` set (tl step_names)"
      using run sum by (simp_all add: l1_def)
    with ns show "good s" by (auto simp: good_def step_names_def)
  qed
  with gs new have g3: "\<forall>s\<in>set (seen l3). good s"
    by (auto simp: l3_def l1_def)
  show ?thesis
  proof (cases "int i < int (length us) - 1")
    case True
    obtain n where n: "seen (wait_loop target l4) = seen l4 @ replicate n (job l4)"
      using wait_loop_seen by blast
    have "sent (job l4) + failed (job l4) = Suc i"
      using j3(5,6) count_split [of "delivered w k sp us" "Suc i"] by (simp add: l4_def)
    then have "good (job l4)"
      using j3 by (auto simp: good_def l4_def)
    with g3 n have "\<forall>s\<in>set (seen (wait_loop target l4)). good s"
      by (auto simp: l4_def)
    then show ?thesis
      using True j3 p3 unfolding it loop_inv_def
      by (simp add: wait_loop_frame l4_def)
  next
    case False
    with i have "\<not> Suc i < length us" by simp
    then show ?thesis
      using False j3 p3 g3 unfolding it loop_inv_def by simp
  qed
qed

lemma started_inv:
  "loop_inv w k sp pl us 0
     \<lparr>job = started_state req us, proxyIndex = 0, proxyUrls = [], now = t, seen = [started_state req us]\<rparr>"
  by (simp add: loop_inv_def started_state_def good_def step_names_def)

lemma for_loop_inv:
  "loop_inv w k sp pl us (length us)
     (for_loop (iteration w k sp pl us) (length us) 0
        \<lparr>job = started_state req us, proxyIndex = 0, proxyUrls = [], now = t, seen = [started_state req us]\<rparr>)"
proof (rule for_loop_rule [where I = "loop_inv w k sp pl us"])
  show "loop_inv w k sp pl us 0
     \<lparr>job = started_state req us, proxyIndex = 0, proxyUrls = [], now = t, seen = [started_state req us]\<rparr>"
    by (rule started_inv)
  show "0 \<le> length us" by simp
  show "\<And>j l. j < length us \<Longrightarrow> loop_inv w k sp pl us j l
      \<Longrightarrow> running (job l) \<and> loop_inv w k sp pl us (Suc j) (iteration w k sp pl us j l)"
    using iteration_inv by (simp add: loop_inv_def [of w k sp pl us _ _, THEN iffD1, THEN conjunct1] iteration_inv)
qed

lemma background_final:
  fixes w k sp pl us req
  defines "b \<equiv> background w k sp pl us (started_state req us)"
  shows "\<not> running (job b)" and "nextSendAt (job b) = None" and "currentUsername (job b) = None"
    and "total_count (job b) = length us"
    and "sent (job b) = length (filter (delivered w k sp us) [0..<length us])"
    and "failed (job b) = length (filter (\<lambda>j. \<not> delivered w k sp us j) [0..<length us])"
    and "0 < length us \<Longrightarrow> index (job b) = length us - 1"
    and "proxyUrls b = map (assigned pl) [0..<length us]"
    and "proxyIndex b = (if pl = [] then 0 else length us)"
    and "\<forall>s\<in>set (seen b). good s"
    and "seen b \<noteq> [] \<and> last (seen b) = job b"
  using for_loop_inv [of w k sp pl us req "started_at w"]
  by (simp_all add: b_def background_def Let_def loop_inv_def await_def good_def)

subsection \<open>The example run\<close>

lemma wait_loop_seen_mono: "s \<in> set (seen l) \<Longrightarrow> s \<in> set (seen (wait_loop target l))"
  using wait_loop_seen [of target l] by auto

lemma example_thrown:
  "thrown example_world (u16 ''key'') (u16 ''s'') 0 (u16 ''alice'') = None"
  "thrown example_world (u16 ''key'') (u16 ''s'') 1 (u16 ''bob'') = Some (u16 ''User not found'')"
  by (simp_all add: thrown_def example_world_def openrouterGenerate_def u16_def)

lemma example_history:
  "example_resolving \<in> set (snd (handle example_world POST (u16 ''/api/start'') example_request initial_state))"
proof -
  have w: "waitSec example_world 0 = 3840"
    by (simp add: waitSec_def example_world_def jitterSeconds_def captchaExtraDelaySeconds_def)
  show ?thesis
    by (simp add: handle_def route_matches_def lower_ascii_def api_start_def example_request_def
        initial_state_def background_def
        validated_proxies_def started_state_def Let_def for_loop.simps iteration_def w
        dispatch_def step_defs wait_loop_frame openrouterGenerate_def example_resolving_def
        u16_def example_world_def [THEN arg_cong, of api_key] example_world_def [THEN arg_cong, of login]
        example_world_def [THEN arg_cong, of searchExact] example_world_def [THEN arg_cong, of fetch_completion]
        example_world_def [THEN arg_cong, of broadcastText] example_world_def [THEN arg_cong, of round_trip]
        example_world_def [THEN arg_cong, of started_at])
qed

subsection \<open>Requests and reachable states\<close>

lemma api_start_cases:
  assumes "api_start w req st = (code, h)"
  shows "(code \<noteq> 200 \<and> h = [st])
       \<or> (\<exists>names apiKey. code = 200 \<and> usernames req = Some names \<and> names \<noteq> []
             \<and> api_key w = Some apiKey
             \<and> h = st # seen (background w apiKey (systemPrompt req)
                     (validated_proxies w (proxies req)) names (started_state req names)))"
  using assms by (auto simp: api_start_def split: if_splits option.splits)

lemma handle_cases:
  assumes "handle w verb url req st = (code, h)"
  shows "h = [st]
       \<or> (\<exists>names apiKey pl. h = st # seen (background w apiKey (systemPrompt req) pl names
               (started_state req names)))"
proof (cases "verb = POST \<and> route_matches ''/api/start'' url")
  case True
  with assms have "api_start w req st = (code, h)" by (simp add: handle_def)
  from api_start_cases [OF this] show ?thesis by blast
next
  case False
  with assms show ?thesis by (auto simp: handle_def split: if_splits)
qed

lemma route_variants:
  "handle w POST (u16 ''/API/Start/?x=1'') req st = api_start w req st"
  "handle w HEAD (u16 ''/api/status'') req st = (200, [st])"
  by (simp_all add: handle_def route_matches_def lower_ascii_def u16_def)

lemma running_kept_by_requests: "running st \<Longrightarrow> handle w verb url req st = (code, h) \<Longrightarrow> h = [st]"
  by (auto simp: handle_def api_start_def split: if_splits)

lemma reachable_good: "reachable s \<Longrightarrow> good s"
proof (induction rule: reachable.induct)
  case start
  show ?case by (simp add: good_def initial_state_def)
next
  case (request st w verb url req code history st')
  from handle_cases [OF request.hyps(2)] request.hyps(3) request.IH
    background_final(10) [of w _ "systemPrompt req" _ _ req]
  show ?case by auto
qed

lemma example_reachable: "reachable example_resolving"
proof -
  obtain code h where h: "handle example_world POST (u16 ''/api/start'') example_request initial_state = (code, h)"
    by (cases "handle example_world POST (u16 ''/api/start'') example_request initial_state")
  with example_history have "example_resolving \<in> set h" by simp
  with reachable.start h show ?thesis by (rule reachable.request)
qed

text \<open>
  C1. The application registers no route for \<open>POST /api/stop\<close>, which the client calls
  from its Stop button: the request is answered with 404 and \<open>state\<close> stays as it was, a
  running job included.
\<close>

theorem stop_route_missing:
  "handle w POST (u16 ''/api/stop'') req st = (404, [st])"
  by (simp add: handle_def route_matches_def lower_ascii_def u16_def)

text \<open>
  C5. In every value that \<open>state\<close> takes, \<open>lastStep\<close> is absent or one of the four strings
  \<open>login_success\<close>, \<open>resolve_user_pk\<close>, \<open>generate_message\<close> and \<open>send_dm\<close>.
\<close>

theorem lastStep_values:
  "reachable s \<Longrightarrow>
     lastStep s \<in> {None, Some (u16 ''login_success''), Some (u16 ''resolve_user_pk''),
                   Some (u16 ''generate_message''), Some (u16 ''send_dm'')}"
  using reachable_good [of s] by (auto simp: good_def step_names_def)

theorem lastStep_values_witness:
  "reachable example_resolving
   \<and> lastStep example_resolving \<in> {None, Some (u16 ''login_success''), Some (u16 ''resolve_user_pk''),
                   Some (u16 ''generate_message''), Some (u16 ''send_dm'')}"
  using lastStep_values [OF example_reachable] example_reachable by simp

text \<open>
  While the loop awaits the resolution of \<open>bob\<close>, \<open>lastStep\<close> is \<open>resolve_user_pk\<close>, which
  is none of \<open>login_success\<close>, \<open>resolve_user\<close>, \<open>generate_message\<close>, \<open>send_message\<close>.
\<close>

theorem lastStep_resolve_user_pk:
  "reachable example_resolving
   \<and> lastStep example_resolving = Some (u16 ''resolve_user_pk'')
   \<and> lastStep example_resolving \<notin> {Some (u16 ''login_success''), Some (u16 ''resolve_user''),
                   Some (u16 ''generate_message''), Some (u16 ''send_message'')}"
  using example_reachable by (simp add: example_resolving_def u16_def)

text \<open>
  C6. In every value that \<open>state\<close> takes, \<open>nextSendAt\<close> is absent exactly when no job is
  running or nothing has been counted yet (the first dispatch is in flight). Once the first
  pause has been scheduled it stays set, during the later dispatches too, until the
  \<open>finally\<close> block clears it.
\<close>

theorem nextSendAt_absent_iff:
  "reachable s \<Longrightarrow> (nextSendAt s = None \<longleftrightarrow> \<not> running s \<or> sent s + failed s = 0)"
  using reachable_good [of s] by (simp add: good_def)

theorem nextSendAt_absent_iff_witness:
  "reachable example_resolving
   \<and> (nextSendAt example_resolving = None
        \<longleftrightarrow> \<not> running example_resolving \<or> sent example_resolving + failed example_resolving = 0)"
  using nextSendAt_absent_iff [OF example_reachable] example_reachable by simp

text \<open>
  While the loop awaits the resolution of \<open>bob\<close>, the second recipient, \<open>nextSendAt\<close>
  still holds the target of the pause that has ended.
\<close>

theorem nextSendAt_during_dispatch:
  "reachable example_resolving
   \<and> running example_resolving
   \<and> index example_resolving = 1
   \<and> sent example_resolving + failed example_resolving = 1
   \<and> currentUsername example_resolving = Some (u16 ''bob'')
   \<and> lastStep example_resolving = Some (u16 ''resolve_user_pk'')
   \<and> nextSendAt example_resolving = Some 3840000"
  using example_reachable by (simp add: example_resolving_def)

text \<open>
  C9. The dispatch attempts of a job get the proxies of the validated list in turn: the
  attempt with number \<open>i\<close>, counted from 0, gets the entry at \<open>i mod length\<close>, and the cursor
  ends at the number of attempts. With an empty list every attempt gets no proxy and the
  cursor stays 0. The next theorem is the run with the list A, B, C and five recipients,
  and a run with an empty list.
\<close>

theorem proxies_round_robin:
  "proxyUrls (background w apiKey prompt proxyList names (started_state req names))
     = map (\<lambda>i. if proxyList = [] then None else Some (proxyList ! (i mod length proxyList)))
         [0..<length names]
   \<and> proxyIndex (background w apiKey prompt proxyList names (started_state req names))
     = (if proxyList = [] then 0 else length names)"
  using background_final(8,9) [of w apiKey prompt proxyList names req]
  by (simp add: assigned_def [abs_def])

theorem proxies_round_robin_witness:
  "proxyUrls (background example_world (u16 ''key'') (u16 ''s'') [u16 ''A'', u16 ''B'', u16 ''C'']
       [u16 ''n1'', u16 ''n2'', u16 ''n3'', u16 ''n4'', u16 ''n5'']
       (started_state example_request [u16 ''n1'', u16 ''n2'', u16 ''n3'', u16 ''n4'', u16 ''n5'']))
     = [Some (u16 ''A''), Some (u16 ''B''), Some (u16 ''C''), Some (u16 ''A''), Some (u16 ''B'')]
   \<and> proxyIndex (background example_world (u16 ''key'') (u16 ''s'') [u16 ''A'', u16 ''B'', u16 ''C'']
       [u16 ''n1'', u16 ''n2'', u16 ''n3'', u16 ''n4'', u16 ''n5'']
       (started_state example_request [u16 ''n1'', u16 ''n2'', u16 ''n3'', u16 ''n4'', u16 ''n5''])) = 5
   \<and> proxyUrls (background example_world (u16 ''key'') (u16 ''s'') []
       [u16 ''n1'', u16 ''n2'']  (started_state example_request [u16 ''n1'', u16 ''n2'']))
     = [None, None]
   \<and> proxyIndex (background example_world (u16 ''key'') (u16 ''s'') []
       [u16 ''n1'', u16 ''n2'']  (started_state example_request [u16 ''n1'', u16 ''n2''])) = 0"
  using proxies_round_robin [of example_world "u16 ''key''" "u16 ''s''" "[u16 ''A'', u16 ''B'', u16 ''C'']"
       "[u16 ''n1'', u16 ''n2'', u16 ''n3'', u16 ''n4'', u16 ''n5'']" example_request]
    proxies_round_robin [of example_world "u16 ''key''" "u16 ''s''" "[]"
       "[u16 ''n1'', u16 ''n2'']" example_request]
  by (simp add: upt_rec)

subsection \<open>Completion and counters\<close>



text \<open>
  C10. One turn of the loop leaves \<open>total\<close> alone and sets \<open>lastError\<close> to the message of
  the error thrown, or clears it when nothing is thrown, whatever it held before. In the
  first case \<open>failed\<close> grows by one and \<open>sent\<close> is unchanged, in the second \<open>sent\<close> grows
  by one and \<open>failed\<close> is unchanged.
\<close>

theorem iteration_counts:
  assumes "i < length names"
  shows "total_count (job (iteration w apiKey prompt proxyList names i l)) = total_count (job l)
       \<and> lastError (job (iteration w apiKey prompt proxyList names i l))
           = thrown w apiKey prompt i (names ! i)
       \<and> (thrown w apiKey prompt i (names ! i) = None \<longrightarrow>
            sent (job (iteration w apiKey prompt proxyList names i l)) = sent (job l) + 1
            \<and> failed (job (iteration w apiKey prompt proxyList names i l)) = failed (job l))
       \<and> (thrown w apiKey prompt i (names ! i) \<noteq> None \<longrightarrow>
            failed (job (iteration w apiKey prompt proxyList names i l)) = failed (job l) + 1
            \<and> sent (job (iteration w apiKey prompt proxyList names i l)) = sent (job l))"
  by (simp add: iteration_def Let_def wait_loop_frame dispatch_counters dispatch_frame)

theorem iteration_counts_witness:
  "(0::nat) < length [u16 ''alice'', u16 ''bob'']
   \<and> thrown example_world (u16 ''key'') (u16 ''s'') 0 ([u16 ''alice'', u16 ''bob''] ! 0) = None
   \<and> lastError (job example_vars) = Some (u16 ''earlier failure'')
   \<and> lastError (job (iteration example_world (u16 ''key'') (u16 ''s'') [] [u16 ''alice'', u16 ''bob''] 0 example_vars)) = None
   \<and> sent (job (iteration example_world (u16 ''key'') (u16 ''s'') [] [u16 ''alice'', u16 ''bob''] 0 example_vars)) = 4
   \<and> failed (job (iteration example_world (u16 ''key'') (u16 ''s'') [] [u16 ''alice'', u16 ''bob''] 0 example_vars)) = 4
   \<and> (1::nat) < length [u16 ''alice'', u16 ''bob'']
   \<and> thrown example_world (u16 ''key'') (u16 ''s'') 1 ([u16 ''alice'', u16 ''bob''] ! 1) \<noteq> None
   \<and> lastError (job (iteration example_world (u16 ''key'') (u16 ''s'') [] [u16 ''alice'', u16 ''bob''] 1 example_vars))
       = Some (u16 ''User not found'')
   \<and> sent (job (iteration example_world (u16 ''key'') (u16 ''s'') [] [u16 ''alice'', u16 ''bob''] 1 example_vars)) = 3
   \<and> failed (job (iteration example_world (u16 ''key'') (u16 ''s'') [] [u16 ''alice'', u16 ''bob''] 1 example_vars)) = 5
   \<and> total_count (job (iteration example_world (u16 ''key'') (u16 ''s'') [] [u16 ''alice'', u16 ''bob''] 1 example_vars)) = 2"
proof -
  have l0: "(0::nat) < length [u16 ''alice'', u16 ''bob'']" and l1: "(1::nat) < length [u16 ''alice'', u16 ''bob'']"
    by simp_all
  have v: "sent (job example_vars) = 3" "failed (job example_vars) = 4" "total_count (job example_vars) = 2"
    "lastError (job example_vars) = Some (u16 ''earlier failure'')"
    by (simp_all add: example_vars_def)
  from iteration_counts [OF l0, of example_world "u16 ''key''" "u16 ''s''" "[]" example_vars]
    iteration_counts [OF l1, of example_world "u16 ''key''" "u16 ''s''" "[]" example_vars]
    example_thrown v
  show ?thesis by simp
qed

end
